theory Spec2Isabelle
  imports Complex_Main
begin

section \<open>Text\<close>

text \<open>
  A Python \<open>str\<close> is modelled as a \<open>string\<close>, one \<open>char\<close> per code point; a
  \<open>char\<close> holds the code points below 256 (Latin-1). On this range the character
  tables below are those of Python 3: \<open>str.upper\<close>, \<open>str.lower\<close>, \<open>str.isspace\<close>,
  \<open>str.isdigit\<close>, \<open>str.isdecimal\<close>, the line boundaries of \<open>str.splitlines\<close>, and
  the classes \<open>\s\<close>, \<open>\d\<close>, \<open>\w\<close> of \<open>re\<close> for a \<open>str\<close> pattern.
\<close>

definition ascii_lowercase :: string where
  "ascii_lowercase = ''abcdefghijklmnopqrstuvwxyz''"

definition ascii_uppercase :: string where
  "ascii_uppercase = ''ABCDEFGHIJKLMNOPQRSTUVWXYZ''"

text \<open>
  \<open>str.lower\<close> of a character: the ASCII capitals, and the Latin-1 capitals \<open>0xC0\<close> to
  \<open>0xDE\<close> without the multiplication sign \<open>0xD7\<close>, move up by 32.
\<close>

definition lower_char :: "char \<Rightarrow> char" where
  "lower_char c =
     (case map_of (zip ascii_uppercase ascii_lowercase) c of
        Some l \<Rightarrow> l
      | None \<Rightarrow>
          (let n = (of_char c :: nat)
           in if 0xC0 \<le> n \<and> n \<le> 0xDE \<and> n \<noteq> 0xD7 then char_of (n + 32) else c))"

definition lower :: "string \<Rightarrow> string" where
  "lower s = map lower_char s"

text \<open>
  \<open>str.upper\<close> of a character: the ASCII small letters, and the Latin-1 small letters
  \<open>0xE0\<close> to \<open>0xFE\<close> without the division sign \<open>0xF7\<close>, move down by 32; the sharp
  s \<open>0xDF\<close> becomes \<open>SS\<close>. The capitals of the micro sign \<open>0xB5\<close> and of \<open>0xFF\<close> are
  \<open>U+039C\<close> and \<open>U+0178\<close>, which no \<open>char\<close> holds: there the result is \<open>None\<close>, and
  so is \<open>upper\<close> of a string with such a character. Such a result is no ASCII string.
\<close>

definition upper_char :: "char \<Rightarrow> string option" where
  "upper_char c =
     (case map_of (zip ascii_lowercase ascii_uppercase) c of
        Some u \<Rightarrow> Some [u]
      | None \<Rightarrow>
          (let n = (of_char c :: nat)
           in if n = 0xDF then Some ''SS''
              else if n = 0xB5 \<or> n = 0xFF then None
              else if 0xE0 \<le> n \<and> n \<le> 0xFE \<and> n \<noteq> 0xF7 then Some [char_of (n - 32)]
              else Some [c]))"

fun upper :: "string \<Rightarrow> string option" where
  "upper [] = Some []"
| "upper (c # cs) =
     (case upper_char c of
        None \<Rightarrow> None
      | Some u \<Rightarrow> (case upper cs of None \<Rightarrow> None | Some us \<Rightarrow> Some (u @ us)))"

text \<open>\<open>str.isspace\<close>, which is also the class \<open>\s\<close>: tab, line feed, vertical tab,
  form feed, carriage return, the four separators \<open>0x1c\<close> to \<open>0x1f\<close>, the space, the
  next line \<open>0x85\<close> and the no-break space \<open>0xA0\<close>.\<close>

definition is_space :: "char \<Rightarrow> bool" where
  "is_space c =
     (let n = (of_char c :: nat)
      in (9 \<le> n \<and> n \<le> 13) \<or> (28 \<le> n \<and> n \<le> 32) \<or> n = 0x85 \<or> n = 0xA0)"

text \<open>\<open>str.isdecimal\<close>, which is also the class \<open>\d\<close>: the ten ASCII digits.
  \<open>str.isdigit\<close> of a character adds the superscripts two, three and one.\<close>

definition is_decimal :: "char \<Rightarrow> bool" where
  "is_decimal c = (c \<in> set ''0123456789'')"

definition is_digit :: "char \<Rightarrow> bool" where
  "is_digit c = (is_decimal c \<or> c \<in> {CHR 0xB2, CHR 0xB3, CHR 0xB9})"

text \<open>\<open>str.isdigit\<close> of a string: not empty and digits only.\<close>

definition isdigit :: "string \<Rightarrow> bool" where
  "isdigit s = (s \<noteq> [] \<and> list_all is_digit s)"

text \<open>The class \<open>\w\<close>: the underscore and the characters \<open>str.isalnum\<close> accepts.\<close>

definition is_word :: "char \<Rightarrow> bool" where
  "is_word c =
     (let n = (of_char c :: nat)
      in (0x30 \<le> n \<and> n \<le> 0x39) \<or> (0x41 \<le> n \<and> n \<le> 0x5A) \<or> n = 0x5F \<or>
         (0x61 \<le> n \<and> n \<le> 0x7A) \<or> n = 0xAA \<or> (0xB2 \<le> n \<and> n \<le> 0xB3) \<or> n = 0xB5 \<or>
         (0xB9 \<le> n \<and> n \<le> 0xBA) \<or> (0xBC \<le> n \<and> n \<le> 0xBE) \<or>
         (0xC0 \<le> n \<and> n \<le> 0xD6) \<or> (0xD8 \<le> n \<and> n \<le> 0xF6) \<or> 0xF8 \<le> n)"

definition rstrip :: "string \<Rightarrow> string" where
  "rstrip s = rev (dropWhile is_space (rev s))"

definition strip :: "string \<Rightarrow> string" where
  "strip s = dropWhile is_space (rstrip s)"

text \<open>\<open>s.split()\<close>: the maximal runs of characters that are not whitespace.\<close>

function split_ws :: "string \<Rightarrow> string list" where
  "split_ws [] = []"
| "split_ws (c # cs) =
     (if is_space c then split_ws cs
      else takeWhile (\<lambda>x. \<not> is_space x) (c # cs)
             # split_ws (dropWhile (\<lambda>x. \<not> is_space x) cs))"
  by pat_completeness auto
termination
  by (relation "measure length") (auto simp: less_Suc_eq_le length_dropWhile_le)

text \<open>\<open>sep.join(parts)\<close>.\<close>

fun join :: "string \<Rightarrow> string list \<Rightarrow> string" where
  "join sep [] = []"
| "join sep [x] = x"
| "join sep (x # y # ys) = x @ sep @ join sep (y # ys)"

text \<open>\<open>k in s\<close> for strings.\<close>

fun starts_with :: "string \<Rightarrow> string \<Rightarrow> bool" where
  "starts_with [] s = True"
| "starts_with (k # ks) [] = False"
| "starts_with (k # ks) (c # cs) = (k = c \<and> starts_with ks cs)"

fun contains :: "string \<Rightarrow> string \<Rightarrow> bool" where
  "contains k [] = (k = [])"
| "contains k (c # cs) = (starts_with k (c # cs) \<or> contains k cs)"

definition newline :: char where
  "newline = CHR 0x0A"

definition nl :: string where
  "nl = [newline]"

section \<open>Values of the generative backend\<close>

text \<open>
  What \<open>json.loads\<close> returns: \<open>None\<close>, a bool, a number, a string, a list or a dict (an
  association list; the first pair of a key is the dict's entry). Of a number the code
  below only asks whether it is zero.
\<close>

datatype json =
    JNull
  | JBool bool
  | JNum int
  | JStr string
  | JList "json list"
  | JDict "(string \<times> json) list"

datatype py_error =
    ValueError
  | RuntimeError
  | IndexError
  | TypeError
  | AttributeError
  | JSONDecodeError
  | ImportError
  | BackendError string

text \<open>An exception ends the computation; a value goes on to the next step.\<close>

definition and_then :: "py_error + 'a \<Rightarrow> ('a \<Rightarrow> py_error + 'b) \<Rightarrow> py_error + 'b" where
  "and_then r f = (case r of Inl e \<Rightarrow> Inl e | Inr v \<Rightarrow> f v)"

text \<open>\<open>d.get(key, default)\<close>; on a value that is not a dict the attribute is missing.\<close>

definition dict_get :: "json \<Rightarrow> string \<Rightarrow> json \<Rightarrow> py_error + json" where
  "dict_get d key dflt =
     (case d of
        JDict kvs \<Rightarrow> (case map_of kvs key of None \<Rightarrow> Inr dflt | Some v \<Rightarrow> Inr v)
      | _ \<Rightarrow> Inl AttributeError)"

text \<open>Truth value of a Python object.\<close>

fun truthy :: "json \<Rightarrow> bool" where
  "truthy JNull = False"
| "truthy (JBool b) = b"
| "truthy (JNum n) = (n \<noteq> 0)"
| "truthy (JStr s) = (s \<noteq> [])"
| "truthy (JList xs) = (xs \<noteq> [])"
| "truthy (JDict kvs) = (kvs \<noteq> [])"

text \<open>A method of \<open>str\<close> called on a value: only a string has it.\<close>

definition as_str :: "json \<Rightarrow> py_error + string" where
  "as_str v = (case v of JStr s \<Rightarrow> Inr s | _ \<Rightarrow> Inl AttributeError)"

section \<open>Graph store adapter: \<open>database/neo4j_client.py\<close>\<close>

text \<open>
  The part of the graph the entity and relationship upserts touch. \<open>MERGE\<close> is the only
  statement that creates an \<open>Entity\<close> node, so there is at most one node per
  \<open>(doc_id, name)\<close>: the nodes are a map from that key. A relationship is merged on its
  end points and type and carries a description.
\<close>

record entity =
  e_type :: string
  e_description :: string
  e_salience :: string
  e_created_at :: nat

type_synonym entity_key = "string \<times> string"

record graph =
  entities :: "entity_key \<rightharpoonup> entity"
  relationships :: "(entity_key \<times> string \<times> entity_key) \<rightharpoonup> json"

definition empty_graph :: graph where
  "empty_graph = \<lparr>entities = Map.empty, relationships = Map.empty\<rparr>"

text \<open>
  \<open>create_entity\<close>: the \<open>ON CREATE SET\<close> branch stores every field and the time
  \<open>now\<close> of the call; the \<open>ON MATCH SET\<close> branch takes the new description when it is
  strictly longer, and the new salience when the stored one is \<open>SUPPORTING\<close> and the new
  one is \<open>CORE\<close> or \<open>IMPORTANT\<close>. The call returns the record
  \<open>{name, salience}\<close> of the node.
\<close>

definition on_match :: "string \<Rightarrow> string \<Rightarrow> entity \<Rightarrow> entity" where
  "on_match description salience e =
     e\<lparr>e_description :=
          (if length description > length (e_description e)
           then description else e_description e),
        e_salience :=
          (if e_salience e = ''SUPPORTING'' \<and> salience \<in> {''CORE'', ''IMPORTANT''}
           then salience else e_salience e)\<rparr>"

definition create_entity ::
  "nat \<Rightarrow> string \<Rightarrow> string \<Rightarrow> string \<Rightarrow> string \<Rightarrow> string \<Rightarrow> graph
     \<Rightarrow> graph \<times> (string \<times> string) option" where
  "create_entity now name entity_type description salience doc_id g =
     (let e = (case entities g (doc_id, name) of
                 None \<Rightarrow> \<lparr>e_type = entity_type, e_description = description,
                           e_salience = salience, e_created_at = now\<rparr>
               | Some old \<Rightarrow> on_match description salience old)
      in (g\<lparr>entities := (entities g)((doc_id, name) \<mapsto> e)\<rparr>,
          Some (name, e_salience e)))"

text \<open>One call of \<open>create_entity\<close> with its arguments, and a sequence of calls.\<close>

record upsert =
  u_now :: nat
  u_name :: string
  u_type :: string
  u_description :: string
  u_salience :: string
  u_doc_id :: string

definition apply_upsert :: "upsert \<Rightarrow> graph \<Rightarrow> graph" where
  "apply_upsert u g =
     fst (create_entity (u_now u) (u_name u) (u_type u) (u_description u)
            (u_salience u) (u_doc_id u) g)"

fun apply_upserts :: "upsert list \<Rightarrow> graph \<Rightarrow> graph" where
  "apply_upserts [] g = g"
| "apply_upserts (u # us) g = apply_upserts us (apply_upsert u g)"

text \<open>
  \<open>create_relationship\<close>: the type is upper-cased and checked against the allowed set
  before the session is opened; an upper-cased type that no \<open>string\<close> holds is not in
  the set. The statement matches both end points by
  \<open>(doc_id, name)\<close> and merges the edge, setting its description to the value it is
  given; with an end point missing it writes nothing, and the call returns \<open>True\<close> all
  the same.
\<close>

definition allowed :: "string set" where
  "allowed = {''DEFINES'', ''DETAILS'', ''REFERS_TO'', ''ASSOCIATED_WITH''}"

definition create_relationship ::
  "string \<Rightarrow> string \<Rightarrow> string \<Rightarrow> json \<Rightarrow> string \<Rightarrow> graph \<Rightarrow> graph \<times> bool" where
  "create_relationship source_name target_name rel_type description doc_id g =
     (case upper rel_type of
        None \<Rightarrow> (g, False)
      | Some rel_type \<Rightarrow>
          if rel_type \<notin> allowed then (g, False)
          else
            (case (entities g (doc_id, source_name), entities g (doc_id, target_name)) of
               (Some s, Some t) \<Rightarrow>
                 (g\<lparr>relationships := (relationships g)
                       (((doc_id, source_name), rel_type, (doc_id, target_name))
                          \<mapsto> description)\<rparr>,
                  True)
             | _ \<Rightarrow> (g, True)))"

section \<open>Persisting relationships: \<open>bots/bot3_extractor.py\<close>\<close>

text \<open>\<open>normalize_name\<close>: a falsy name gives the empty string; otherwise the name is
  stripped and its whitespace runs become single spaces.\<close>

definition normalize_name :: "json \<Rightarrow> py_error + string" where
  "normalize_name name =
     (if truthy name
      then and_then (as_str name) (\<lambda>s. Inr (join '' '' (split_ws (strip s))))
      else Inr [])"

text \<open>
  The relationship loop of \<open>persist_extraction\<close>, one item at a time: the graph and the
  count \<open>relationships_written\<close> go in and come out. \<open>continue\<close> returns them
  unchanged. \<open>create_relationship\<close> is called without \<open>doc_id\<close>, so with its default.
\<close>

definition persist_relationship ::
  "json \<Rightarrow> graph \<times> nat \<Rightarrow> py_error + graph \<times> nat" where
  "persist_relationship r st =
     and_then (dict_get r ''type'' (JStr [])) (\<lambda>ty.
     and_then (as_str ty) (\<lambda>ty.
     case upper ty of
       None \<Rightarrow> Inr st
     | Some rel_type \<Rightarrow>
         if rel_type \<notin> allowed then Inr st
         else
           and_then (dict_get r ''source'' JNull) (\<lambda>sv.
           and_then (normalize_name sv) (\<lambda>src.
           and_then (dict_get r ''target'' JNull) (\<lambda>tv.
           and_then (normalize_name tv) (\<lambda>tgt.
           if src = [] \<or> tgt = [] \<or> src = tgt then Inr st
           else
             and_then (dict_get r ''description'' (JStr [])) (\<lambda>description.
             let (g, created) =
                   create_relationship src tgt rel_type description ''doc-1'' (fst st)
             in Inr (g, if created then snd st + 1 else snd st))))))))"

fun persist_relationships ::
  "json list \<Rightarrow> graph \<times> nat \<Rightarrow> py_error + graph \<times> nat" where
  "persist_relationships [] st = Inr st"
| "persist_relationships (r # rs) st =
     (case persist_relationship r st of
        Inl e \<Rightarrow> Inl e
      | Inr st' \<Rightarrow> persist_relationships rs st')"

section \<open>Entity and relationship extraction: \<open>bots/bot3_extractor.py\<close>\<close>

text \<open>
  The generative backend is outside the repository. A provider takes the messages of a
  request and raises or answers; an answer is the list \<open>choices\<close>, each choice with its
  \<open>message.content\<close>, which may be \<open>None\<close>. A client that was not configured (no API
  key) is \<open>None\<close>. Every function that can reach the backend returns, next to its
  result, the providers it has invoked, in order.
\<close>

type_synonym message = "string \<times> string"

type_synonym response = "string option list"

type_synonym provider = "message list \<Rightarrow> py_error + response"

datatype provider_name = OpenAI | Groq

text \<open>\<open>chat_completion\<close> of the extractor: OpenAI first, Groq when OpenAI is absent or
  has raised, \<open>RuntimeError\<close> when neither is there. An exception of Groq is not caught.\<close>

definition chat_completion ::
  "provider option \<Rightarrow> provider option \<Rightarrow> message list
     \<Rightarrow> (py_error + response) \<times> provider_name list" where
  "chat_completion openai_client groq_client messages =
     (let fallback = (\<lambda>log.
            case groq_client of
              Some groq \<Rightarrow> (groq messages, log @ [Groq])
            | None \<Rightarrow> (Inl RuntimeError, log))
      in case openai_client of
           Some openai \<Rightarrow>
             (case openai messages of
                Inr r \<Rightarrow> (Inr r, [OpenAI])
              | Inl e \<Rightarrow> fallback [OpenAI])
         | None \<Rightarrow> fallback [])"

definition safe_list :: "json \<Rightarrow> json list" where
  "safe_list v = (case v of JList xs \<Rightarrow> xs | _ \<Rightarrow> [])"

text \<open>\<open>json.loads\<close>: the grammar is the parameter \<open>parse\<close>; \<open>None\<close> in place of a
  string is a \<open>TypeError\<close>.\<close>

definition json_loads :: "(string \<Rightarrow> json option) \<Rightarrow> string option \<Rightarrow> py_error + json" where
  "json_loads parse content =
     (case content of
        None \<Rightarrow> Inl TypeError
      | Some c \<Rightarrow> (case parse c of None \<Rightarrow> Inl JSONDecodeError | Some v \<Rightarrow> Inr v))"

definition first_choice :: "response \<Rightarrow> py_error + string option" where
  "first_choice choices = (case choices of [] \<Rightarrow> Inl IndexError | c # _ \<Rightarrow> Inr c)"

record extraction =
  ex_entities :: "json list"
  ex_relationships :: "json list"

definition empty_extraction :: extraction where
  "empty_extraction = \<lparr>ex_entities = [], ex_relationships = []\<rparr>"

text \<open>The statements of the \<open>try\<close> block that follow the backend call.\<close>

definition read_response ::
  "(string \<Rightarrow> json option) \<Rightarrow> py_error + response \<Rightarrow> py_error + extraction" where
  "read_response parse answer =
     and_then answer (\<lambda>response.
     and_then (first_choice response) (\<lambda>content.
     and_then (json_loads parse content) (\<lambda>raw.
     and_then (dict_get raw ''entities'' JNull) (\<lambda>es.
     and_then (dict_get raw ''relationships'' JNull) (\<lambda>rs.
     Inr \<lparr>ex_entities = take 25 (safe_list es),
          ex_relationships = take 30 (safe_list rs)\<rparr>)))))"

text \<open>
  \<open>extract_entities_and_relationships\<close>. The prompt constant \<open>EXTRACTION_PROMPT\<close> is the
  parameter \<open>extraction_prompt\<close>. The \<open>except Exception\<close> clause turns every exception
  of the \<open>try\<close> block into the empty extraction.
\<close>

definition extraction_messages :: "string \<Rightarrow> string \<Rightarrow> string \<Rightarrow> message list" where
  "extraction_messages extraction_prompt section_id text =
     [(''system'', ''Return valid JSON only.''),
      (''user'', extraction_prompt @ nl @ ''[SECTION: '' @ section_id @ '']'' @ nl @ text)]"

definition extract_entities_and_relationships ::
  "provider option \<Rightarrow> provider option \<Rightarrow> (string \<Rightarrow> json option) \<Rightarrow> string
     \<Rightarrow> string \<Rightarrow> string \<Rightarrow> bool \<Rightarrow> (py_error + extraction) \<times> provider_name list" where
  "extract_entities_and_relationships openai_client groq_client parse extraction_prompt
       text section_id is_empty =
     (if is_empty \<or> strip text = [] then (Inr empty_extraction, [])
      else
        let (answer, log) =
              chat_completion openai_client groq_client
                (extraction_messages extraction_prompt section_id text)
        in (case read_response parse answer of
              Inr result \<Rightarrow> (Inr result, log)
            | Inl e \<Rightarrow> (Inr empty_extraction, log)))"

section \<open>Query orchestrator: \<open>query/global_query_v4.py\<close>\<close>

definition detect_query_intent :: "string \<Rightarrow> string" where
  "detect_query_intent query =
     (let q = lower query in
      if list_ex (\<lambda>k. contains k q)
           [''summarize'', ''summary'', ''overview'', ''explain'', ''high level'',
            ''what is this about'']
      then ''SUMMARY''
      else if list_ex (\<lambda>k. contains k q) [''compare'', ''trend'', ''over time'']
      then ''TEMPORAL''
      else ''GRAPH_ONLY'')"

text \<open>\<open>chat_completion\<close> of the query module: the text of the first choice, stripped.
  For OpenAI the whole expression is inside the \<open>try\<close>.\<close>

definition response_text :: "response \<Rightarrow> py_error + string" where
  "response_text choices =
     and_then (first_choice choices) (\<lambda>content.
       case content of None \<Rightarrow> Inl AttributeError | Some c \<Rightarrow> Inr (strip c))"

definition chat_completion_query ::
  "provider option \<Rightarrow> provider option \<Rightarrow> message list
     \<Rightarrow> (py_error + string) \<times> provider_name list" where
  "chat_completion_query openai_client groq_client messages =
     (let fallback = (\<lambda>log.
            case groq_client of
              Some groq \<Rightarrow> (and_then (groq messages) response_text, log @ [Groq])
            | None \<Rightarrow> (Inl RuntimeError, log))
      in case openai_client of
           Some openai \<Rightarrow>
             (case and_then (openai messages) response_text of
                Inr r \<Rightarrow> (Inr r, [OpenAI])
              | Inl e \<Rightarrow> fallback [OpenAI])
         | None \<Rightarrow> fallback [])"

text \<open>
  The part of the graph \<open>fetch_graph_context\<close> reads: the \<open>MENTIONS\<close> edges from
  sections to entities, the \<open>NORMALIZED_TO\<close> edges from an entity (by document and name)
  to a financial concept, the \<open>APPLIES_TO\<close> edges from a section to a time period.
\<close>

record section_node =
  s_doc_id :: string
  s_section_id :: string
  s_title :: "string option"
  s_page_start :: "int option"

record entity_node =
  n_doc_id :: string
  n_name :: string
  n_type :: string
  n_description :: "string option"
  n_salience :: string

record context_graph =
  mentions :: "(section_node \<times> entity_node) list"
  normalized_to :: "((string \<times> string) \<times> string) list"
  applies_to :: "((string \<times> string) \<times> string) list"

record context_row =
  r_section_id :: string
  r_section_title :: "string option"
  r_page_start :: "int option"
  r_entity :: string
  r_type :: string
  r_description :: "string option"
  r_salience :: string
  r_financial_concept :: "string option"
  r_time_period :: "string option"

text \<open>\<open>OPTIONAL MATCH\<close>: one row for each match, one row with \<open>null\<close> when there is
  none.\<close>

definition optional_match :: "('k \<times> 'v) list \<Rightarrow> 'k \<Rightarrow> 'v option list" where
  "optional_match edges k =
     (case filter (\<lambda>(k', v). k' = k) edges of
        [] \<Rightarrow> [None]
      | ms \<Rightarrow> map (\<lambda>(k', v). Some v) ms)"

text \<open>
  \<open>fetch_graph_context\<close>. \<open>ORDER BY e.salience DESC\<close> compares the strings, which puts
  \<open>IMPORTANT\<close> before \<open>CORE\<close>; within one salience the order is the store's, here the
  order of the edges.
\<close>

definition fetch_graph_context :: "context_graph \<Rightarrow> string \<Rightarrow> nat \<Rightarrow> context_row list" where
  "fetch_graph_context g doc limit =
     (let matched = filter (\<lambda>(s, e). s_doc_id s = doc \<and> n_salience e \<in> {''CORE'', ''IMPORTANT''})
                      (mentions g);
          rows = concat (map (\<lambda>(s, e).
                   concat (map (\<lambda>fc.
                     map (\<lambda>t.
                       \<lparr>r_section_id = s_section_id s, r_section_title = s_title s,
                        r_page_start = s_page_start s, r_entity = n_name e, r_type = n_type e,
                        r_description = n_description e, r_salience = n_salience e,
                        r_financial_concept = fc, r_time_period = t\<rparr>)
                       (optional_match (applies_to g) (s_doc_id s, s_section_id s)))
                     (optional_match (normalized_to g) (n_doc_id e, n_name e)))) matched)
      in take limit (filter (\<lambda>r. r_salience r = ''IMPORTANT'') rows
                     @ filter (\<lambda>r. r_salience r = ''CORE'') rows))"

text \<open>The three characters of the source above code point 255, which no \<open>char\<close>
  holds, by their UTF-8 bytes; they only occur in the prompt and in the answer, and none
  of the bytes is whitespace.\<close>

definition rightwards_arrow :: string where
  "rightwards_arrow = [CHR 0xE2, CHR 0x86, CHR 0x92]"

definition en_dash :: string where
  "en_dash = [CHR 0xE2, CHR 0x80, CHR 0x93]"

definition pushpin :: string where
  "pushpin = [CHR 0xF0, CHR 0x9F, CHR 0x93, CHR 0x8C]"

definition context_line :: "context_row \<Rightarrow> string" where
  "context_line r =
     ''- '' @ r_entity r @ '' ('' @ r_type r @ '', '' @ r_salience r @ '')''
     @ (case r_financial_concept r of
          None \<Rightarrow> [] | Some fc \<Rightarrow> if fc = [] then [] else '' '' @ rightwards_arrow @ '' '' @ fc)
     @ (case r_description r of
          None \<Rightarrow> [] | Some d \<Rightarrow> if d = [] then [] else '': '' @ d)"

definition graph_prompt :: "string \<Rightarrow> string \<Rightarrow> string" where
  "graph_prompt context question =
     join nl
       ['''',
        ''You are answering using a DOCUMENT KNOWLEDGE GRAPH.'',
        '''',
        ''STRICT RULES:'',
        ''- Answer SHARP and CONCISE (no fluff)'',
        ''- Use ONLY the provided graph context'',
        ''- Prefer CORE entities'',
        ''- Do NOT hallucinate'',
        ''- If unsure, say so clearly'',
        '''',
        ''GRAPH CONTEXT:'',
        context,
        '''',
        ''QUESTION:'',
        question,
        '''',
        ''ANSWER (2'' @ en_dash @ ''5 sentences max):'',
        '''']"

record query_result =
  q_query :: string
  q_answer :: string
  q_references :: "(string \<times> int option) list"

text \<open>
  \<open>global_query_v5\<close>. The summarization of the communities (module
  \<open>bots.bot9_summarization\<close>) is the parameter \<open>summarize\<close>: the import or the call
  raises, or it gives the summaries of the communities. The references are a Python set
  turned into a list; here they are kept in the order of their first row.
\<close>

definition global_query_v5 ::
  "provider option \<Rightarrow> provider option \<Rightarrow> (py_error + string list) \<Rightarrow> string
     \<Rightarrow> context_graph \<Rightarrow> string \<Rightarrow> (py_error + query_result) \<times> provider_name list" where
  "global_query_v5 openai_client groq_client summarize question g doc_id =
     (let intent = detect_query_intent question;
          rows = fetch_graph_context g doc_id 80
      in if rows = []
         then (Inr \<lparr>q_query = question,
                    q_answer = ''No relevant information found in the document graph.'',
                    q_references = []\<rparr>, [])
         else
           let context_lines = map context_line rows;
               references = map (\<lambda>r. (r_section_title r, r_page_start r)) rows;
               context = join nl (take 120 context_lines);
               (answer, log) =
                 chat_completion_query openai_client groq_client
                   [(''system'', ''You answer strictly from graph data.''),
                    (''user'', graph_prompt context question)]
           in (and_then answer (\<lambda>answer.
               and_then (if intent = ''SUMMARY''
                         then and_then summarize (\<lambda>communities.
                                Inr (answer @ nl @ nl @ pushpin @ '' COMMUNITY OVERVIEW:'' @ nl
                                     @ concat (map (\<lambda>c. ''- '' @ c @ nl) communities)))
                         else Inr answer) (\<lambda>answer.
               Inr \<lparr>q_query = question,
                    q_answer = strip answer,
                    q_references =
                      remdups (concat (map (\<lambda>(section, page).
                        case section of
                          None \<Rightarrow> []
                        | Some title \<Rightarrow> if title = [] then [] else [(title, page)])
                        references))\<rparr>)), log))"

section \<open>Section community detection: \<open>bots/bot7_community_detection.py\<close>\<close>

text \<open>
  The \<open>networkx\<close> graph of the sections as far as the code uses it: the nodes in the
  order they were added, and the undirected edges, one per pair of end points, each with
  its weight and its source. The title of a node is not read again and is left out. A
  Python float is a \<open>real\<close> here.
\<close>

record section_graph =
  nodes :: "string list"
  edges :: "((string \<times> string) \<times> real \<times> string) list"

definition empty_section_graph :: section_graph where
  "empty_section_graph = \<lparr>nodes = [], edges = []\<rparr>"

definition add_node :: "string \<Rightarrow> section_graph \<Rightarrow> section_graph" where
  "add_node n G = (if n \<in> set (nodes G) then G else G\<lparr>nodes := nodes G @ [n]\<rparr>)"

definition same_edge :: "string \<times> string \<Rightarrow> string \<times> string \<Rightarrow> bool" where
  "same_edge a b = (a = b \<or> a = (snd b, fst b))"

text \<open>\<open>G.add_edge(u, v, weight=w, source=src)\<close> adds missing end points, and on an
  edge that is already there replaces the attributes.\<close>

definition add_edge :: "string \<Rightarrow> string \<Rightarrow> real \<Rightarrow> string \<Rightarrow> section_graph \<Rightarrow> section_graph" where
  "add_edge u v w src G =
     (let G = add_node v (add_node u G) in
      if list_ex (\<lambda>(k, a). same_edge k (u, v)) (edges G)
      then G\<lparr>edges := map (\<lambda>(k, a). if same_edge k (u, v) then (k, (w, src)) else (k, a))
                          (edges G)\<rparr>
      else G\<lparr>edges := edges G @ [((u, v), (w, src))]\<rparr>)"

definition number_of_nodes :: "section_graph \<Rightarrow> nat" where
  "number_of_nodes G = length (nodes G)"

definition number_of_edges :: "section_graph \<Rightarrow> nat" where
  "number_of_edges G = length (edges G)"

text \<open>The rows of the three queries of \<open>get_section_graph\<close>: the sections (id and
  title), the explicit references (source and target), and the pairs of sections with
  the number of salient entities they share.\<close>

record section_rows =
  sections :: "(string \<times> string option) list"
  refs :: "(string \<times> string) list"
  shared :: "(string \<times> string \<times> nat) list"

definition get_section_graph :: "section_rows \<Rightarrow> section_graph" where
  "get_section_graph rows =
     (let G = foldl (\<lambda>G (sid, title). add_node sid G) empty_section_graph (sections rows);
          G = foldl (\<lambda>G (src, tgt). add_edge src tgt 3.0 ''reference'' G) G (refs rows);
          G = foldl (\<lambda>G (src, tgt, n).
                       if n \<ge> 1 then add_edge src tgt (1.0 + real (min n 3)) ''entity'' G
                       else G) G (shared rows)
      in G)"

text \<open>\<open>str\<close> of an integer.\<close>

function str_nat :: "nat \<Rightarrow> string" where
  "str_nat n =
     (if n < 10 then [''0123456789'' ! n]
      else str_nat (n div 10) @ [''0123456789'' ! (n mod 10)])"
  by pat_completeness auto
termination
  by (relation "measure id") auto

declare str_nat.simps [simp del]

definition str_int :: "int \<Rightarrow> string" where
  "str_int i = (if i < 0 then ''-'' @ str_nat (nat (- i)) else str_nat (nat i))"

text \<open>The statements \<open>_persist_communities\<close> sends to the store, with their
  parameters.\<close>

datatype community_write =
    Merge_community (w_cid: string) (w_doc_id: string) (w_size: nat) (w_modularity: real)
      (w_mode: string)
  | Merge_contains (w_doc_id: string) (w_sid: string) (w_cid: string)

text \<open>The dictionaries \<open>detect_section_communities\<close> returns: status \<open>empty\<close> with its
  reason; \<open>skipped\<close> with reason, nodes and edges; \<open>rejected\<close> with the modularity;
  \<open>ok\<close> with mode, number of communities and modularity.\<close>

datatype detection =
    Status_empty string
  | Status_skipped string nat nat
  | Status_rejected real
  | Status_ok string nat real

definition persist_communities ::
  "(int \<times> string list) list \<Rightarrow> string \<Rightarrow> real \<Rightarrow> string
     \<Rightarrow> detection \<times> community_write list" where
  "persist_communities communities doc_id modularity mode =
     (Status_ok mode (length communities) modularity,
      concat (map (\<lambda>(cid, secs).
        Merge_community (str_int cid) doc_id (length secs) modularity mode
          # map (\<lambda>sid. Merge_contains doc_id sid (str_int cid)) secs) communities))"

text \<open>\<open>communities.setdefault(cid, []).append(sid)\<close> on a dict kept in insertion
  order.\<close>

fun setdefault_append :: "int \<Rightarrow> string \<Rightarrow> (int \<times> string list) list \<Rightarrow> (int \<times> string list) list" where
  "setdefault_append cid sid [] = [(cid, [sid])]"
| "setdefault_append cid sid ((c, secs) # rest) =
     (if c = cid then (c, secs @ [sid]) # rest
      else (c, secs) # setdefault_append cid sid rest)"

definition group_partition :: "(string \<times> int) list \<Rightarrow> (int \<times> string list) list" where
  "group_partition part = foldl (\<lambda>cs (sid, cid). setdefault_append cid sid cs) [] part"

text \<open>
  \<open>detect_section_communities\<close>. The Louvain library is outside the repository:
  \<open>best_partition\<close> and \<open>modularity\<close> are parameters.
\<close>

definition detect_section_communities ::
  "(section_graph \<Rightarrow> (string \<times> int) list) \<Rightarrow> ((string \<times> int) list \<Rightarrow> section_graph \<Rightarrow> real)
     \<Rightarrow> section_rows \<Rightarrow> string \<Rightarrow> detection \<times> community_write list" where
  "detect_section_communities best_partition modularity_of rows doc_id =
     (let G = get_section_graph rows;
          n_nodes = number_of_nodes G;
          n_edges = number_of_edges G
      in if n_nodes = 0 then (Status_empty ''no sections found'', [])
         else if n_nodes \<le> 15 then
           (if n_edges = 0
            then persist_communities [(0, nodes G)] doc_id 0.0 ''small''
            else
              let part = best_partition G;
                  modularity = modularity_of part G
              in persist_communities (group_partition part) doc_id modularity ''small'')
         else if n_edges < n_nodes
           then (Status_skipped ''graph too sparse'' n_nodes n_edges, [])
         else
           let part = best_partition G;
               modularity = modularity_of part G
           in if modularity < 0.15 then (Status_rejected modularity, [])
              else persist_communities
                     (filter (\<lambda>(cid, secs). length secs \<ge> 2) (group_partition part))
                     doc_id modularity ''normal'')"

section \<open>Financial facts: \<open>bots/bot8_financial_facts.py\<close>\<close>

text \<open>\<open>col.split("_", 1)\<close> of a string that has an underscore: the part before the
  first underscore and the part after it.\<close>

definition split_underscore :: "string \<Rightarrow> string \<times> string" where
  "split_underscore col =
     (takeWhile (\<lambda>c. c \<noteq> CHR ''_'') col, drop 1 (dropWhile (\<lambda>c. c \<noteq> CHR ''_'') col))"

definition parse_column :: "string \<Rightarrow> string option \<times> string option" where
  "parse_column col =
     (if CHR ''_'' \<notin> set col then (None, None)
      else
        let (scope, year) = split_underscore col in
        if \<not> isdigit year then (None, None)
        else
          (case upper scope of
             None \<Rightarrow> (None, None)
           | Some scope \<Rightarrow>
               if scope \<notin> {''GROUP'', ''COMPANY''} then (None, None)
               else (Some scope, Some year)))"

text \<open>\<open>d[key] = value\<close> on a dict kept in insertion order.\<close>

fun dict_set :: "'k \<Rightarrow> 'v \<Rightarrow> ('k \<times> 'v) list \<Rightarrow> ('k \<times> 'v) list" where
  "dict_set k v [] = [(k, v)]"
| "dict_set k v ((k', v') # rest) =
     (if k' = k then (k', v) # rest else (k', v') # dict_set k v rest)"

text \<open>The loop over the columns of a table in \<open>extract_facts_from_tables\<close>: a column
  enters \<open>col_meta\<close> when both parts of its parse are truthy.\<close>

definition add_column ::
  "string \<Rightarrow> (string \<times> string \<times> string) list \<Rightarrow> (string \<times> string \<times> string) list" where
  "add_column col col_meta =
     (case parse_column col of
        (Some scope, Some year) \<Rightarrow>
          if scope \<noteq> [] \<and> year \<noteq> [] then dict_set (lower col) (scope, year) col_meta
          else col_meta
      | _ \<Rightarrow> col_meta)"

definition column_meta :: "string list \<Rightarrow> (string \<times> string \<times> string) list" where
  "column_meta columns = foldl (\<lambda>col_meta col. add_column col col_meta) [] columns"

section \<open>Chunker: \<open>bots/bot2_chunker.py\<close>\<close>

text \<open>\<open>normalize_text\<close>, statement by statement.\<close>

text \<open>The line boundaries of \<open>str.splitlines\<close>: line feed, carriage return, vertical
  tab, form feed, the separators \<open>0x1c\<close> to \<open>0x1e\<close> and the next line \<open>0x85\<close>.\<close>

definition is_linebreak :: "char \<Rightarrow> bool" where
  "is_linebreak c =
     (c \<in> {newline, CHR 0x0D, CHR 0x0B, CHR 0x0C, CHR 0x1C, CHR 0x1D, CHR 0x1E, CHR 0x85})"

definition is_blank :: "char \<Rightarrow> bool" where
  "is_blank c = (c = CHR '' '' \<or> c = CHR 0x09)"

text \<open>
  \<open>re.sub\<close> for a pattern \<open>[class]{n,}\<close>: scanning from the left, a maximal run of at
  least \<open>n\<close> characters of the class is replaced by \<open>rep\<close>; any other character is
  kept.
\<close>

function re_sub_run :: "(char \<Rightarrow> bool) \<Rightarrow> nat \<Rightarrow> string \<Rightarrow> string \<Rightarrow> string" where
  "re_sub_run p n rep [] = []"
| "re_sub_run p n rep (c # cs) =
     (if p c \<and> n \<le> Suc (length (takeWhile p cs))
      then rep @ re_sub_run p n rep (dropWhile p cs)
      else c # re_sub_run p n rep cs)"
  by pat_completeness auto
termination
  by (relation "measure (\<lambda>(p, n, rep, s). length s)")
     (auto simp: less_Suc_eq_le length_dropWhile_le)

definition collapse_newlines :: "string \<Rightarrow> string" where
  "collapse_newlines text = re_sub_run (\<lambda>c. c = newline) 3 [newline, newline] text"

definition collapse_blanks :: "string \<Rightarrow> string" where
  "collapse_blanks text = re_sub_run is_blank 2 '' '' text"

function splitlines :: "string \<Rightarrow> string list" where
  "splitlines [] = []"
| "splitlines (c # cs) =
     (let line = takeWhile (\<lambda>x. \<not> is_linebreak x) (c # cs);
          rest = dropWhile (\<lambda>x. \<not> is_linebreak x) (c # cs)
      in case rest of
           [] \<Rightarrow> [line]
         | b # rest' \<Rightarrow>
             line # splitlines (if b = CHR 0x0D \<and> starts_with nl rest' then tl rest' else rest'))"
  by pat_completeness auto
termination
proof (relation "measure length", goal_cases)
  case 1
  show ?case by simp
next
  case (2 c cs line rest b rest')
  have "length rest \<le> length (c # cs)"
    unfolding 2(2) by (rule length_dropWhile_le)
  with 2(3) have "length rest' < length (c # cs)"
    by simp
  then show ?case
    by (cases rest') auto
qed

definition normalize_text :: "string \<Rightarrow> string" where
  "normalize_text text =
     strip (join nl (map rstrip (splitlines (collapse_blanks (collapse_newlines text)))))"

text \<open>
  What the proofs below say of a text: only the newline breaks its lines; a newline comes
  after a newline or after a character that is not whitespace; no two blanks are next to
  each other; it neither starts nor ends with whitespace.
\<close>

abbreviation isnl :: "char \<Rightarrow> bool" where
  "isnl \<equiv> (\<lambda>c. c = newline)"

abbreviation inline :: "char \<Rightarrow> bool" where
  "inline \<equiv> (\<lambda>x. \<not> is_linebreak x)"

definition before_newline_ok :: "char \<Rightarrow> char \<Rightarrow> bool" where
  "before_newline_ok c d = (d = newline \<longrightarrow> c = newline \<or> \<not> is_space c)"

definition not_both_blank :: "char \<Rightarrow> char \<Rightarrow> bool" where
  "not_both_blank c d = (\<not> (is_blank c \<and> is_blank d))"

definition normalized :: "string \<Rightarrow> bool" where
  "normalized y =
     ((\<forall>c \<in> set y. is_linebreak c \<longrightarrow> c = newline) \<and>
      successively before_newline_ok y \<and>
      successively not_both_blank y \<and>
      (y = [] \<or> \<not> is_space (hd y) \<and> \<not> is_space (last y)))"

definition MAX_CHUNK_SIZE :: nat where
  "MAX_CHUNK_SIZE = 800"

text \<open>\<open>xs[i:j]\<close> with Python's rule for a negative or too large index.\<close>

definition slice_index :: "nat \<Rightarrow> int \<Rightarrow> nat" where
  "slice_index n i = (if i < 0 then nat (max 0 (int n + i)) else min n (nat i))"

definition py_slice :: "'a list \<Rightarrow> int \<Rightarrow> int \<Rightarrow> 'a list" where
  "py_slice xs i j =
     (let a = slice_index (length xs) i; b = slice_index (length xs) j
      in take (b - a) (drop a xs))"

text \<open>
  The \<open>while\<close> loop of \<open>chunk_by_tokens\<close>, with \<open>start\<close> and \<open>chunks\<close> as its state. The
  tokenizer is outside the repository: \<open>decode\<close> is a parameter, and the tokens are any
  list. \<open>start\<close> grows by at least one in every round.
\<close>

function chunk_loop ::
  "('t list \<Rightarrow> string) \<Rightarrow> 't list \<Rightarrow> int \<Rightarrow> int \<Rightarrow> int \<Rightarrow> string list
     \<Rightarrow> py_error + string list" where
  "chunk_loop decode tokens chunk_size overlap start chunks =
     (if start < int (length tokens) then
        let endpos = min (start + chunk_size) (int (length tokens));
            chunk_tokens = py_slice tokens start endpos
        in if length chunk_tokens > MAX_CHUNK_SIZE then Inl ValueError
           else
             let chunks = chunks @ [decode chunk_tokens]
             in if endpos = int (length tokens) then Inr chunks
                else chunk_loop decode tokens chunk_size overlap
                       (max (endpos - overlap) (start + 1)) chunks
      else Inr chunks)"
  by pat_completeness auto
termination
  by (relation "measure (\<lambda>(decode, tokens, chunk_size, overlap, start, chunks).
                   nat (int (length tokens) - start))") auto

declare chunk_loop.simps [simp del]

definition chunk_by_tokens ::
  "(string \<Rightarrow> 't list) \<Rightarrow> ('t list \<Rightarrow> string) \<Rightarrow> string \<Rightarrow> int \<Rightarrow> int
     \<Rightarrow> py_error + string list" where
  "chunk_by_tokens encode decode text chunk_size overlap =
     (let tokens = encode text in
      if int (length tokens) \<le> chunk_size then Inr [text]
      else chunk_loop decode tokens chunk_size overlap 0 [])"

definition count_tokens :: "(string \<Rightarrow> 't list) \<Rightarrow> string \<Rightarrow> nat" where
  "count_tokens encode text = length (encode text)"

section \<open>Reference extraction: \<open>bots/bot4_reference_extractor.py\<close>\<close>

text \<open>
  The regular expressions of the module, as far as its six patterns need them, matched
  the way \<open>re\<close> does: by backtracking, the first alternative that leads to a match wins.
  All patterns are compiled with \<open>re.IGNORECASE\<close>, so a literal character matches in
  either case and \<open>[A-Z]\<close> matches every ASCII letter; below code point 256 no other
  character matches an ASCII letter or \<open>[A-Z]\<close> without regard to case.
\<close>

datatype rx =
    Chr char
  | Digit
  | Space
  | Letter
  | Word_boundary
  | Seq rx rx
  | Star rx
  | Group rx

definition is_ascii_letter :: "char \<Rightarrow> bool" where
  "is_ascii_letter c = (c \<in> set (ascii_lowercase @ ascii_uppercase))"

text \<open>A state of the matcher: the position in the text and the span of group 1, if it
  has matched.\<close>

type_synonym rx_state = "nat \<times> (nat \<times> nat) option"

definition class_ends :: "(char \<Rightarrow> bool) \<Rightarrow> string \<Rightarrow> rx_state \<Rightarrow> rx_state list" where
  "class_ends p t st =
     (if fst st < length t \<and> p (t ! fst st) then [(Suc (fst st), snd st)] else [])"

text \<open>\<open>\b\<close>: exactly one of the characters before and after the position is a word
  character; beyond either end of the text there is none.\<close>

definition at_boundary :: "string \<Rightarrow> nat \<Rightarrow> bool" where
  "at_boundary t i =
     ((0 < i \<and> is_word (t ! (i - 1))) \<noteq> (i < length t \<and> is_word (t ! i)))"

text \<open>
  The greedy star: after each way the body can match, try the star again, and last of all
  stop here. The count bounds the rounds; every round moves forward by a character at
  least, so the length of the text is enough. An empty round is not repeated.
\<close>

fun star_ends :: "(rx_state \<Rightarrow> rx_state list) \<Rightarrow> nat \<Rightarrow> rx_state \<Rightarrow> rx_state list" where
  "star_ends body 0 st = [st]"
| "star_ends body (Suc rounds) st =
     concat (map (\<lambda>st'. if fst st < fst st' then star_ends body rounds st' else [])
               (body st)) @ [st]"

text \<open>The states in which the expression can end when it starts in the given state, in
  the order backtracking tries them.\<close>

primrec ends :: "rx \<Rightarrow> string \<Rightarrow> rx_state \<Rightarrow> rx_state list" where
  "ends (Chr c) t = class_ends (\<lambda>x. lower_char x = lower_char c) t"
| "ends Digit t = class_ends is_decimal t"
| "ends Space t = class_ends is_space t"
| "ends Letter t = class_ends is_ascii_letter t"
| "ends Word_boundary t = (\<lambda>st. if at_boundary t (fst st) then [st] else [])"
| "ends (Seq a b) t = (\<lambda>st. concat (map (ends b t) (ends a t st)))"
| "ends (Star a) t = star_ends (ends a t) (length t)"
| "ends (Group a) t = (\<lambda>st. map (\<lambda>st'. (fst st', Some (fst st, fst st'))) (ends a t st))"

text \<open>
  \<open>re.finditer\<close>: the matches from left to right, each search starting where the last
  match ended; a match is its start, its end and the span of group 1. (After an empty
  match the search moves on by one character; no pattern of the module matches the empty
  string.)
\<close>

function finditer_from :: "rx \<Rightarrow> string \<Rightarrow> nat \<Rightarrow> (nat \<times> nat \<times> (nat \<times> nat) option) list" where
  "finditer_from r t i =
     (if length t < i then []
      else case ends r t (i, None) of
             [] \<Rightarrow> finditer_from r t (Suc i)
           | (e, cap) # _ \<Rightarrow> (i, e, cap) # finditer_from r t (if i < e then e else Suc i))"
  by pat_completeness auto
termination
  by (relation "measure (\<lambda>(r, t, i). Suc (length t) - i)") auto

declare finditer_from.simps [simp del]

definition finditer :: "rx \<Rightarrow> string \<Rightarrow> (nat \<times> nat \<times> (nat \<times> nat) option) list" where
  "finditer r t = finditer_from r t 0"

text \<open>The patterns. \<open>lit s r\<close> is the literal \<open>s\<close> followed by \<open>r\<close>; \<open>number\<close> is
  \<open>\d+(?:\.\d+)*\<close>.\<close>

definition lit :: "string \<Rightarrow> rx \<Rightarrow> rx" where
  "lit s r = foldr (\<lambda>c. Seq (Chr c)) s r"

definition number :: rx where
  "number = Seq Digit (Seq (Star Digit) (Star (Seq (Chr CHR ''.'') (Seq Digit (Star Digit)))))"

definition patterns :: "(rx \<times> string) list" where
  "patterns =
     [(Seq Word_boundary (lit ''page''
         (Seq Space (Seq (Star Space) (Seq (Group (Seq Digit (Star Digit))) Word_boundary)))),
       ''PAGE''),
      (Seq Word_boundary (lit ''section''
         (Seq Space (Seq (Star Space) (Seq (Group number) Word_boundary)))),
       ''SECTION''),
      (Seq Word_boundary (lit ''appendix''
         (Seq Space (Seq (Star Space) (Seq (Group Letter) Word_boundary)))),
       ''APPENDIX''),
      (Seq Word_boundary (lit ''table''
         (Seq Space (Seq (Star Space) (Seq (Group number) Word_boundary)))),
       ''TABLE''),
      (Seq Word_boundary (lit ''figure''
         (Seq Space (Seq (Star Space) (Seq (Group number) Word_boundary)))),
       ''FIGURE''),
      (Seq Word_boundary (lit ''fig.''
         (Seq (Star Space) (Seq (Group number) Word_boundary))),
       ''FIGURE'')]"

text \<open>\<open>match.group(1)\<close>, and Python's \<open>str\<close> of it inside an f-string.\<close>

definition group1 :: "string \<Rightarrow> (nat \<times> nat) option \<Rightarrow> string option" where
  "group1 t cap = (case cap of None \<Rightarrow> None | Some (a, b) \<Rightarrow> Some (take (b - a) (drop a t)))"

definition str_opt :: "string option \<Rightarrow> string" where
  "str_opt v = (case v of None \<Rightarrow> ''None'' | Some s \<Rightarrow> s)"

text \<open>The window of a match: 60 characters to either side, cut at the ends of the text,
  in lower case.\<close>

definition window_of :: "string \<Rightarrow> nat \<Rightarrow> nat \<Rightarrow> string" where
  "window_of t start endpos =
     lower (py_slice t (max 0 (int start - 60)) (min (int (length t)) (int endpos + 60)))"

definition has_cue :: "string \<Rightarrow> bool" where
  "has_cue window =
     list_ex (\<lambda>k. contains k window)
       [''see'', ''refer'', ''defined'', ''detailed'', ''explained'', ''shown'']"

definition infer_reference_reason :: "string \<Rightarrow> string" where
  "infer_reference_reason context =
     (if contains ''defined'' context then ''DEFINED_IN''
      else if list_ex (\<lambda>k. contains k context) [''detailed'', ''explained'', ''described'']
      then ''DETAILED_IN''
      else ''REFERENCED_IN'')"

record reference =
  reference_id :: string
  reference_type :: string
  target_locator :: "string option"
  from_section_id :: string
  ref_doc_id :: string
  reason :: string

fun deduplicate_from :: "string set \<Rightarrow> reference list \<Rightarrow> reference list" where
  "deduplicate_from seen [] = []"
| "deduplicate_from seen (r # rs) =
     (if reference_id r \<in> seen then deduplicate_from seen rs
      else r # deduplicate_from (insert (reference_id r) seen) rs)"

definition deduplicate_references :: "reference list \<Rightarrow> reference list" where
  "deduplicate_references references = deduplicate_from {} references"

text \<open>The two loops of \<open>extract_cross_section_references\<close> up to the test of the
  window: every match of every pattern, in order, with its type, locator and window.\<close>

definition locator_matches :: "string \<Rightarrow> (string \<times> string option \<times> string) list" where
  "locator_matches text =
     concat (map (\<lambda>(pattern, ref_type).
       map (\<lambda>(start, endpos, cap). (ref_type, group1 text cap, window_of text start endpos))
         (finditer pattern text)) patterns)"

definition make_reference ::
  "string \<Rightarrow> string \<Rightarrow> string \<times> string option \<times> string \<Rightarrow> reference" where
  "make_reference section_id doc_id m =
     (case m of (ref_type, locator, window) \<Rightarrow>
        \<lparr>reference_id = doc_id @ '':'' @ section_id @ '':'' @ ref_type @ '':'' @ str_opt locator,
         reference_type = ref_type,
         target_locator = locator,
         from_section_id = section_id,
         ref_doc_id = doc_id,
         reason = infer_reference_reason window\<rparr>)"

definition extract_cross_section_references :: "string \<Rightarrow> string \<Rightarrow> string \<Rightarrow> reference list" where
  "extract_cross_section_references text section_id doc_id =
     deduplicate_references
       (map (make_reference section_id doc_id)
          (filter (\<lambda>(ref_type, locator, window). has_cue window) (locator_matches text)))"

section \<open>Concrete inputs\<close>

definition core_then_supporting :: "upsert list" where
  "core_then_supporting =
     [\<lparr>u_now = 1, u_name = ''Revenue'', u_type = ''FINANCIAL'', u_description = ''Income'',
       u_salience = ''CORE'', u_doc_id = ''doc-1''\<rparr>,
      \<lparr>u_now = 2, u_name = ''Revenue'', u_type = ''FINANCIAL'', u_description = ''Income'',
       u_salience = ''SUPPORTING'', u_doc_id = ''doc-1''\<rparr>]"

text \<open>A graph holding the one entity \<open>A\<close> of document \<open>doc-1\<close>.\<close>

definition graph_a :: graph where
  "graph_a = fst (create_entity 1 ''A'' ''CONCEPT'' ''d'' ''CORE'' ''doc-1'' empty_graph)"

text \<open>A relationship item whose source is written with a no-break space and a run of
  spaces, and a relationship type written with the sharp s.\<close>

definition spaced_name :: string where
  "spaced_name = '' Net'' @ [CHR 0xA0] @ '' Assets ''"

definition self_loop_item :: json where
  "self_loop_item =
     JDict [(''source'', JStr spaced_name),
            (''target'', JStr ''Net Assets''),
            (''type'', JStr ''defines''), (''description'', JStr ''x'')]"

definition sharp_s_type :: string where
  "sharp_s_type = ''a'' @ [CHR 0xDF] @ ''ociated_with''"

text \<open>
  A backend answer that breaks the schema of the prompt: \<open>entities\<close> is a string, the
  one relationship has a type outside the enumeration and no end points, and there is a
  third key. \<open>noisy_parse\<close> is \<open>json.loads\<close> at that answer.
\<close>

definition noisy_content :: string where
  \<open>noisy_content = ''{"entities": "none", "relationships": [{"type": "OWNS"}], "note": 1}''\<close>

definition noisy_provider :: provider where
  "noisy_provider = (\<lambda>messages. Inr [Some noisy_content])"

definition noisy_parse :: "string \<Rightarrow> json option" where
  "noisy_parse c =
     (if c = noisy_content
      then Some (JDict [(''entities'', JStr ''none''),
                        (''relationships'', JList [JDict [(''type'', JStr ''OWNS'')]]),
                        (''note'', JNum 1)])
      else None)"

definition failing_provider :: provider where
  "failing_provider = (\<lambda>messages. Inl (BackendError ''timeout''))"

text \<open>
  A graph for the query: section \<open>s1\<close> of \<open>doc-1\<close> mentions a \<open>SUPPORTING\<close>
  entity, and a section of another document mentions a \<open>CORE\<close> one.
\<close>

definition supporting_only :: context_graph where
  "supporting_only =
     \<lparr>mentions =
        [(\<lparr>s_doc_id = ''doc-1'', s_section_id = ''s1'', s_title = Some ''Overview'',
           s_page_start = Some 1\<rparr>,
          \<lparr>n_doc_id = ''doc-1'', n_name = ''Office'', n_type = ''OTHER'',
           n_description = Some ''A building'', n_salience = ''SUPPORTING''\<rparr>),
         (\<lparr>s_doc_id = ''doc-2'', s_section_id = ''s1'', s_title = Some ''Results'',
           s_page_start = Some 3\<rparr>,
          \<lparr>n_doc_id = ''doc-1'', n_name = ''Revenue'', n_type = ''FINANCIAL'',
           n_description = Some ''Income'', n_salience = ''CORE''\<rparr>)],
      normalized_to = [], applies_to = []\<rparr>"

definition answering_provider :: provider where
  "answering_provider = (\<lambda>messages. Inr [Some ''An answer.''])"

text \<open>Three documents: no section; fifteen sections and no edge; sixteen sections and
  ten references between them. The Louvain functions given with them are never reached.\<close>

definition rows_0 :: section_rows where
  "rows_0 = \<lparr>sections = [], refs = [], shared = []\<rparr>"

definition rows_15 :: section_rows where
  "rows_15 =
     \<lparr>sections = map (\<lambda>sid. (sid, None))
        [''s1'', ''s2'', ''s3'', ''s4'', ''s5'', ''s6'', ''s7'', ''s8'', ''s9'', ''s10'',
         ''s11'', ''s12'', ''s13'', ''s14'', ''s15''],
      refs = [], shared = []\<rparr>"

definition rows_16 :: section_rows where
  "rows_16 =
     \<lparr>sections = map (\<lambda>sid. (sid, None))
        [''s1'', ''s2'', ''s3'', ''s4'', ''s5'', ''s6'', ''s7'', ''s8'', ''s9'', ''s10'',
         ''s11'', ''s12'', ''s13'', ''s14'', ''s15'', ''s16''],
      refs = [(''s1'', ''s2''), (''s2'', ''s3''), (''s3'', ''s4''), (''s4'', ''s5''),
              (''s5'', ''s6''), (''s6'', ''s7''), (''s7'', ''s8''), (''s8'', ''s9''),
              (''s9'', ''s10''), (''s10'', ''s11'')],
      shared = []\<rparr>"

definition no_partition :: "section_graph \<Rightarrow> (string \<times> int) list" where
  "no_partition G = []"

definition no_modularity :: "(string \<times> int) list \<Rightarrow> section_graph \<Rightarrow> real" where
  "no_modularity part G = 0"

text \<open>A tokenizer with one token per character, and a text of 801 characters.\<close>

definition char_encode :: "string \<Rightarrow> nat list" where
  "char_encode text = map of_char text"

definition char_decode :: "nat list \<Rightarrow> string" where
  "char_decode tokens = map char_of tokens"

definition long_text :: string where
  "long_text = replicate 801 (CHR ''a'')"

text \<open>Texts beyond ASCII: one of a no-break space and a next line only; a locator whose
  whitespace is a no-break space; a locator that follows a letter with an accent; and two
  lines that end in a no-break space, with a next line between them.\<close>

definition nbsp_only :: string where
  "nbsp_only = [CHR 0xA0, CHR 0x85]"

definition nbsp_locator :: string where
  "nbsp_locator = ''see table'' @ [CHR 0xA0] @ ''2''"

definition accent_locator :: string where
  "accent_locator = ''see '' @ [CHR 0xE9] @ ''table 2''"

definition nbsp_lines :: string where
  "nbsp_lines = [CHR ''a'', CHR 0xA0, CHR 0x85, CHR ''b'', CHR 0xA0]"

text \<open>Two texts for the normalization: a line of one space between two newlines, and a
  text with runs of blanks and newlines.\<close>

definition spaced_lines :: string where
  "spaced_lines = [CHR ''a'', newline, CHR '' '', newline, newline, CHR ''b'']"

definition ragged_text :: string where
  "ragged_text =
     [CHR ''a'', CHR '' '', CHR '' '', CHR ''b'', CHR '' '', newline, newline, newline, newline,
      CHR ''c'', newline]"

section \<open>Entity upsert: salience and idempotence\<close>

lemma on_match_salience:
  "e_salience (on_match d s e) = e_salience e \<or>
   (e_salience e = ''SUPPORTING'' \<and> e_salience (on_match d s e) \<in> {''CORE'', ''IMPORTANT''})"
  by (simp add: on_match_def)

lemma on_match_idem: "on_match d s (on_match d s e) = on_match d s e"
  by (simp add: on_match_def)

lemma apply_upsert_step:
  assumes "entities g k = Some e"
  shows "\<exists>e'. entities (apply_upsert u g) k = Some e' \<and>
           (e_salience e' = e_salience e \<or>
            (e_salience e = ''SUPPORTING'' \<and> e_salience e' \<in> {''CORE'', ''IMPORTANT''}))"
proof (cases "k = (u_doc_id u, u_name u)")
  case True
  with assms have "entities (apply_upsert u g) k =
      Some (on_match (u_description u) (u_salience u) e)"
    by (simp add: apply_upsert_def create_entity_def Let_def)
  then show ?thesis
    using on_match_salience [of "u_description u" "u_salience u" e] by auto
next
  case False
  with assms have "entities (apply_upsert u g) k = Some e"
    by (simp add: apply_upsert_def create_entity_def Let_def)
  then show ?thesis by simp
qed

text \<open>
  C4. Once an entity is stored, whatever sequence of \<open>create_entity\<close> calls follows, it
  stays stored and its salience is either the one it had or has moved from
  \<open>SUPPORTING\<close> to \<open>CORE\<close> or to \<open>IMPORTANT\<close>; a stored salience other than
  \<open>SUPPORTING\<close> (so \<open>CORE\<close> and \<open>IMPORTANT\<close>) never changes.
\<close>

theorem salience_monotone:
  assumes "entities g k = Some e"
  shows "\<exists>e'. entities (apply_upserts us g) k = Some e' \<and>
           (e_salience e' = e_salience e \<or>
            (e_salience e = ''SUPPORTING'' \<and> e_salience e' \<in> {''CORE'', ''IMPORTANT''})) \<and>
           (e_salience e \<noteq> ''SUPPORTING'' \<longrightarrow> e_salience e' = e_salience e)"
  using assms
proof (induction us arbitrary: g e)
  case Nil
  then show ?case by simp
next
  case (Cons u us)
  from apply_upsert_step [OF Cons.prems, of u] obtain e1 where
    e1: "entities (apply_upsert u g) k = Some e1" and
    s1: "e_salience e1 = e_salience e \<or>
         (e_salience e = ''SUPPORTING'' \<and> e_salience e1 \<in> {''CORE'', ''IMPORTANT''})"
    by blast
  from Cons.IH [OF e1] obtain e2 where
    e2: "entities (apply_upserts us (apply_upsert u g)) k = Some e2" and
    s2: "e_salience e2 = e_salience e1 \<or>
         (e_salience e1 = ''SUPPORTING'' \<and> e_salience e2 \<in> {''CORE'', ''IMPORTANT''})"
    by blast
  from s1 s2 have "(e_salience e2 = e_salience e \<or>
            (e_salience e = ''SUPPORTING'' \<and> e_salience e2 \<in> {''CORE'', ''IMPORTANT''})) \<and>
           (e_salience e \<noteq> ''SUPPORTING'' \<longrightarrow> e_salience e2 = e_salience e)"
    by auto
  with e2 show ?case by simp
qed

text \<open>
  The example of the specification: an entity created with salience \<open>CORE\<close> and
  upserted again with salience \<open>SUPPORTING\<close> is still \<open>CORE\<close>.
\<close>

theorem salience_monotone_witness:
  "entities (apply_upsert (hd core_then_supporting) empty_graph) (''doc-1'', ''Revenue'') =
     Some \<lparr>e_type = ''FINANCIAL'', e_description = ''Income'', e_salience = ''CORE'',
           e_created_at = 1\<rparr> \<and>
   (\<exists>e'. entities (apply_upserts core_then_supporting empty_graph) (''doc-1'', ''Revenue'')
          = Some e' \<and> e_salience e' = ''CORE'')"
proof -
  let ?e = "\<lparr>e_type = ''FINANCIAL'', e_description = ''Income'', e_salience = ''CORE'',
             e_created_at = 1\<rparr>"
  let ?g = "apply_upsert (hd core_then_supporting) empty_graph"
  have h: "entities ?g (''doc-1'', ''Revenue'') = Some ?e"
    by (simp add: core_then_supporting_def apply_upsert_def create_entity_def empty_graph_def)
  have "apply_upserts core_then_supporting empty_graph
          = apply_upserts (tl core_then_supporting) ?g"
    by (simp add: core_then_supporting_def)
  with h salience_monotone [OF h, of "tl core_then_supporting"] show ?thesis
    by auto
qed

text \<open>
  C5. \<open>create_entity\<close> applied a second time with the same name, type, description,
  salience and document leaves the graph as the first call left it and returns the same
  record, whatever the graph was before and whenever the two calls happen.
\<close>

theorem create_entity_idempotent:
  "create_entity now' name entity_type description salience doc_id
     (fst (create_entity now name entity_type description salience doc_id g))
   = create_entity now name entity_type description salience doc_id g"
  by (cases "entities g (doc_id, name)")
     (simp_all add: create_entity_def Let_def on_match_def)

section \<open>Relationship upsert: the type gate and self-loops\<close>

text \<open>
  C3 fails as stated: \<open>create_relationship\<close> compares no names. Called with the same
  source and target and an allowed type it returns \<open>True\<close> and merges the self-loop.
\<close>

theorem create_relationship_self_loop_counterexample:
  "relationships graph_a ((''doc-1'', ''A''), ''DEFINES'', (''doc-1'', ''A'')) = None \<and>
   snd (create_relationship ''A'' ''A'' ''DEFINES'' (JStr ''x'') ''doc-1'' graph_a) = True \<and>
   relationships
     (fst (create_relationship ''A'' ''A'' ''DEFINES'' (JStr ''x'') ''doc-1'' graph_a))
     ((''doc-1'', ''A''), ''DEFINES'', (''doc-1'', ''A'')) = Some (JStr ''x'')"
proof -
  have u: "upper ''DEFINES'' = Some ''DEFINES''"
    by code_simp
  show ?thesis
    by (simp add: create_relationship_def u graph_a_def create_entity_def empty_graph_def
          allowed_def del: upper.simps)
qed

text \<open>
  C3 as the code has it. \<open>create_relationship\<close> returns \<open>False\<close> and leaves the graph
  untouched when the upper-cased type is outside the allowed set, and returns \<open>True\<close>
  for every type that is in the set once upper-cased, whatever the names. The self-loop is
  dropped one level up: an item of \<open>persist_extraction\<close> whose source and target
  normalize to the same string leaves graph and count as they were, when it returns at
  all.
\<close>

theorem create_relationship_gates:
  "((\<forall>rt. upper rel_type = Some rt \<longrightarrow> rt \<notin> allowed) \<longrightarrow>
      create_relationship src tgt rel_type description doc_id g = (g, False)) \<and>
   ((\<exists>rt. upper rel_type = Some rt \<and> rt \<in> allowed) \<longrightarrow>
      snd (create_relationship src tgt rel_type description doc_id g) = True) \<and>
   (dict_get r ''source'' JNull = Inr sv \<and> dict_get r ''target'' JNull = Inr tv \<and>
    normalize_name sv = normalize_name tv \<and> persist_relationship r st = Inr st'
      \<longrightarrow> st' = st)"
proof -
  have gate: "(\<forall>rt. upper rel_type = Some rt \<longrightarrow> rt \<notin> allowed) \<longrightarrow>
      create_relationship src tgt rel_type description doc_id g = (g, False)"
    by (simp add: create_relationship_def split: option.split)
  have ok: "(\<exists>rt. upper rel_type = Some rt \<and> rt \<in> allowed) \<longrightarrow>
      snd (create_relationship src tgt rel_type description doc_id g) = True"
    by (auto simp: create_relationship_def split: option.split)
  have loop: "dict_get r ''source'' JNull = Inr sv \<and> dict_get r ''target'' JNull = Inr tv \<and>
    normalize_name sv = normalize_name tv \<and> persist_relationship r st = Inr st'
      \<longrightarrow> st' = st"
    by (auto simp: persist_relationship_def and_then_def Let_def
          split: sum.splits if_splits prod.splits option.splits)
  from gate ok loop show ?thesis by blast
qed

text \<open>
  The theorem at a type outside the set, at a type that reaches the set through the
  sharp s, and at an item whose source differs from its target only in whitespace, one of
  them a no-break space.
\<close>

theorem create_relationship_gates_witness:
  "upper ''owns'' = Some ''OWNS'' \<and> ''OWNS'' \<notin> allowed \<and>
   create_relationship ''A'' ''B'' ''owns'' (JStr ''x'') ''doc-1'' graph_a = (graph_a, False) \<and>
   upper sharp_s_type = Some ''ASSOCIATED_WITH'' \<and> ''ASSOCIATED_WITH'' \<in> allowed \<and>
   snd (create_relationship ''A'' ''B'' sharp_s_type (JStr ''x'') ''doc-1'' graph_a) = True \<and>
   normalize_name (JStr spaced_name) = Inr ''Net Assets'' \<and>
   normalize_name (JStr ''Net Assets'') = Inr ''Net Assets'' \<and>
   persist_relationship self_loop_item (graph_a, 0) = Inr (graph_a, 0)"
proof -
  have u1: "upper ''owns'' = Some ''OWNS''"
    by code_simp
  have bad: "''OWNS'' \<notin> allowed"
    by (simp add: allowed_def)
  have u2: "upper sharp_s_type = Some ''ASSOCIATED_WITH''"
    by code_simp
  have good: "''ASSOCIATED_WITH'' \<in> allowed"
    by (simp add: allowed_def)
  have u3: "upper ''defines'' = Some ''DEFINES''"
    by code_simp
  have n1: "normalize_name (JStr spaced_name) = Inr ''Net Assets''"
    by code_simp
  have n2: "normalize_name (JStr ''Net Assets'') = Inr ''Net Assets''"
    by code_simp
  have s: "dict_get self_loop_item ''source'' JNull
             = Inr (JStr spaced_name)"
    by (simp add: self_loop_item_def dict_get_def)
  have t: "dict_get self_loop_item ''target'' JNull = Inr (JStr ''Net Assets'')"
    by (simp add: self_loop_item_def dict_get_def)
  have ty: "dict_get self_loop_item ''type'' (JStr []) = Inr (JStr ''defines'')"
    by (simp add: self_loop_item_def dict_get_def)
  have p: "persist_relationship self_loop_item (graph_a, 0) = Inr (graph_a, 0)"
    unfolding persist_relationship_def
    by (simp add: s t ty and_then_def as_str_def u3 n1 n2 allowed_def del: upper.simps)
  note g1 = create_relationship_gates
         [of "''owns''" "''A''" "''B''" "JStr ''x''" "''doc-1''" graph_a self_loop_item
             "JStr spaced_name" "JStr ''Net Assets''"
             "(graph_a, 0)" "(graph_a, 0)"]
  note g2 = create_relationship_gates
         [of sharp_s_type "''A''" "''B''" "JStr ''x''" "''doc-1''" graph_a self_loop_item
             "JStr spaced_name" "JStr ''Net Assets''"
             "(graph_a, 0)" "(graph_a, 0)"]
  from g1 u1 bad have r1:
    "create_relationship ''A'' ''B'' ''owns'' (JStr ''x'') ''doc-1'' graph_a = (graph_a, False)"
    by simp
  from g2 u2 good have r2:
    "snd (create_relationship ''A'' ''B'' sharp_s_type (JStr ''x'') ''doc-1'' graph_a) = True"
    by blast
  from u1 bad r1 u2 good r2 n1 n2 p show ?thesis by simp
qed

section \<open>Extraction: failures are absorbed\<close>

lemma read_response_cases:
  "read_response parse answer =
     (case answer of
        Inl e \<Rightarrow> Inl e
      | Inr [] \<Rightarrow> Inl IndexError
      | Inr (None # _) \<Rightarrow> Inl TypeError
      | Inr (Some c # _) \<Rightarrow>
          (case parse c of
             None \<Rightarrow> Inl JSONDecodeError
           | Some (JDict kvs) \<Rightarrow>
               Inr \<lparr>ex_entities =
                      take 25 (safe_list (case map_of kvs ''entities'' of
                                            None \<Rightarrow> JNull | Some v \<Rightarrow> v)),
                    ex_relationships =
                      take 30 (safe_list (case map_of kvs ''relationships'' of
                                            None \<Rightarrow> JNull | Some v \<Rightarrow> v))\<rparr>
           | Some _ \<Rightarrow> Inl AttributeError))"
  by (simp add: read_response_def and_then_def first_choice_def json_loads_def dict_get_def
        split: sum.splits list.splits option.splits json.splits)

text \<open>
  C2 fails as stated on the schema: an answer that is a JSON object is taken field by
  field, and nothing checks the items. The answer \<open>noisy_content\<close> violates the schema and
  its relationship comes back in the result.
\<close>

theorem extract_schema_violation_counterexample:
  "fst (extract_entities_and_relationships (Some noisy_provider) None noisy_parse
          ''PROMPT'' ''Revenue grew.'' ''s1'' False)
     = Inr \<lparr>ex_entities = [], ex_relationships = [JDict [(''type'', JStr ''OWNS'')]]\<rparr> \<and>
   fst (extract_entities_and_relationships (Some noisy_provider) None noisy_parse
          ''PROMPT'' ''Revenue grew.'' ''s1'' False)
     \<noteq> Inr empty_extraction"
  by (simp add: extract_entities_and_relationships_def chat_completion_def noisy_provider_def
        read_response_cases noisy_parse_def safe_list_def empty_extraction_def
        strip_def rstrip_def is_space_def)

text \<open>
  C2 as the code has it. \<open>extract_entities_and_relationships\<close> always returns a value.
  A chunk marked empty, or whose text is whitespace only, gives the empty extraction and
  invokes no provider. Otherwise the providers invoked are those of \<open>chat_completion\<close>,
  and the result is the empty extraction when the backend raised, when the answer has no
  choice or no content, when the content is not JSON, and when the JSON value is not an
  object; for an object it is the list under \<open>entities\<close> cut to 25 and the list under
  \<open>relationships\<close> cut to 30, each replaced by the empty list when it is missing or not
  a list.
\<close>

theorem extract_absorbs_failures:
  "(let result = extract_entities_and_relationships oc gc parse prompt text sid is_empty;
        call = chat_completion oc gc (extraction_messages prompt sid text)
    in (\<exists>r. fst result = Inr r) \<and>
       (is_empty \<or> strip text = [] \<longrightarrow> result = (Inr empty_extraction, [])) \<and>
       (\<not> is_empty \<and> strip text \<noteq> [] \<longrightarrow>
          snd result = snd call \<and>
          fst result = Inr
            (case fst call of
               Inl e \<Rightarrow> empty_extraction
             | Inr [] \<Rightarrow> empty_extraction
             | Inr (None # _) \<Rightarrow> empty_extraction
             | Inr (Some c # _) \<Rightarrow>
                 (case parse c of
                    None \<Rightarrow> empty_extraction
                  | Some (JDict kvs) \<Rightarrow>
                      \<lparr>ex_entities =
                         take 25 (safe_list (case map_of kvs ''entities'' of
                                               None \<Rightarrow> JNull | Some v \<Rightarrow> v)),
                       ex_relationships =
                         take 30 (safe_list (case map_of kvs ''relationships'' of
                                               None \<Rightarrow> JNull | Some v \<Rightarrow> v))\<rparr>
                  | Some _ \<Rightarrow> empty_extraction))))"
proof -
  have total: "\<exists>r. fst (extract_entities_and_relationships oc gc parse prompt text sid is_empty)
                    = Inr r"
    by (simp add: extract_entities_and_relationships_def split: prod.splits sum.splits)
  have short: "is_empty \<or> strip text = [] \<longrightarrow>
      extract_entities_and_relationships oc gc parse prompt text sid is_empty
        = (Inr empty_extraction, [])"
    by (simp add: extract_entities_and_relationships_def)
  have long: "\<not> is_empty \<and> strip text \<noteq> [] \<longrightarrow>
      extract_entities_and_relationships oc gc parse prompt text sid is_empty
        = (case read_response parse
                  (fst (chat_completion oc gc (extraction_messages prompt sid text))) of
             Inr r \<Rightarrow> Inr r | Inl e \<Rightarrow> Inr empty_extraction,
           snd (chat_completion oc gc (extraction_messages prompt sid text)))"
    by (simp add: extract_entities_and_relationships_def split: prod.splits sum.splits)
  show ?thesis
    unfolding Let_def
  proof (intro conjI impI)
    show "\<exists>r. fst (extract_entities_and_relationships oc gc parse prompt text sid is_empty)
                 = Inr r"
      by (rule total)
  next
    assume "is_empty \<or> strip text = []"
    with short show "extract_entities_and_relationships oc gc parse prompt text sid is_empty
        = (Inr empty_extraction, [])"
      by blast
  next
    assume a: "\<not> is_empty \<and> strip text \<noteq> []"
    with long show "snd (extract_entities_and_relationships oc gc parse prompt text sid is_empty)
        = snd (chat_completion oc gc (extraction_messages prompt sid text))"
      by simp
  next
    assume a: "\<not> is_empty \<and> strip text \<noteq> []"
    with long have "fst (extract_entities_and_relationships oc gc parse prompt text sid is_empty)
        = (case read_response parse
                  (fst (chat_completion oc gc (extraction_messages prompt sid text))) of
             Inr r \<Rightarrow> Inr r | Inl e \<Rightarrow> Inr empty_extraction)"
      by simp
    then show "fst (extract_entities_and_relationships oc gc parse prompt text sid is_empty)
        = Inr (case fst (chat_completion oc gc (extraction_messages prompt sid text)) of
               Inl e \<Rightarrow> empty_extraction
             | Inr [] \<Rightarrow> empty_extraction
             | Inr (None # _) \<Rightarrow> empty_extraction
             | Inr (Some c # _) \<Rightarrow>
                 (case parse c of
                    None \<Rightarrow> empty_extraction
                  | Some (JDict kvs) \<Rightarrow>
                      \<lparr>ex_entities =
                         take 25 (safe_list (case map_of kvs ''entities'' of
                                               None \<Rightarrow> JNull | Some v \<Rightarrow> v)),
                       ex_relationships =
                         take 30 (safe_list (case map_of kvs ''relationships'' of
                                               None \<Rightarrow> JNull | Some v \<Rightarrow> v))\<rparr>
                  | Some _ \<Rightarrow> empty_extraction))"
      by (simp add: read_response_cases
            split: sum.split list.split option.split json.split)
  qed
qed

text \<open>
  The theorem at an empty chunk marker (no provider invoked although one is there), at a
  chunk of a no-break space and a next line (whitespace only, no provider invoked), and
  at a chunk with text whose backend call fails on OpenAI with no Groq client.
\<close>

theorem extract_absorbs_failures_witness:
  "extract_entities_and_relationships (Some answering_provider) None noisy_parse
      ''PROMPT'' ''Revenue grew.'' ''s1'' True = (Inr empty_extraction, []) \<and>
   strip nbsp_only = [] \<and>
   extract_entities_and_relationships (Some answering_provider) None noisy_parse
      ''PROMPT'' nbsp_only ''s1'' False = (Inr empty_extraction, []) \<and>
   strip ''Revenue grew.'' \<noteq> [] \<and>
   chat_completion (Some failing_provider) None
      (extraction_messages ''PROMPT'' ''s1'' ''Revenue grew.'') = (Inl RuntimeError, [OpenAI]) \<and>
   extract_entities_and_relationships (Some failing_provider) None noisy_parse
      ''PROMPT'' ''Revenue grew.'' ''s1'' False = (Inr empty_extraction, [OpenAI])"
proof -
  have s: "strip ''Revenue grew.'' \<noteq> []"
    by (simp add: strip_def rstrip_def is_space_def)
  have c: "chat_completion (Some failing_provider) None
      (extraction_messages ''PROMPT'' ''s1'' ''Revenue grew.'') = (Inl RuntimeError, [OpenAI])"
    by (simp add: chat_completion_def failing_provider_def)
  from extract_absorbs_failures
         [of "Some answering_provider" None noisy_parse "''PROMPT''" "''Revenue grew.''"
             "''s1''" True]
  have e1: "extract_entities_and_relationships (Some answering_provider) None noisy_parse
      ''PROMPT'' ''Revenue grew.'' ''s1'' True = (Inr empty_extraction, [])"
    by (simp add: Let_def)
  have b: "strip nbsp_only = []"
    by code_simp
  from extract_absorbs_failures
         [of "Some answering_provider" None noisy_parse "''PROMPT''" nbsp_only "''s1''" False] b
  have e0: "extract_entities_and_relationships (Some answering_provider) None noisy_parse
      ''PROMPT'' nbsp_only ''s1'' False = (Inr empty_extraction, [])"
    by (simp add: Let_def)
  from extract_absorbs_failures
         [of "Some failing_provider" None noisy_parse "''PROMPT''" "''Revenue grew.''"
             "''s1''" False] s c
  have "snd (extract_entities_and_relationships (Some failing_provider) None noisy_parse
          ''PROMPT'' ''Revenue grew.'' ''s1'' False) = [OpenAI] \<and>
        fst (extract_entities_and_relationships (Some failing_provider) None noisy_parse
          ''PROMPT'' ''Revenue grew.'' ''s1'' False) = Inr empty_extraction"
    by (simp add: Let_def)
  then have e2: "extract_entities_and_relationships (Some failing_provider) None noisy_parse
      ''PROMPT'' ''Revenue grew.'' ''s1'' False = (Inr empty_extraction, [OpenAI])"
    by (simp add: prod_eq_iff)
  from s c e1 b e0 e2 show ?thesis by simp
qed

section \<open>Query: the path without context\<close>

lemma fetch_graph_context_empty:
  assumes "\<forall>(s, e) \<in> set (mentions g).
             s_doc_id s = doc_id \<longrightarrow> n_salience e \<notin> {''CORE'', ''IMPORTANT''}"
  shows "fetch_graph_context g doc_id limit = []"
proof -
  from assms have "filter (\<lambda>(s, e). s_doc_id s = doc_id
                            \<and> n_salience e \<in> {''CORE'', ''IMPORTANT''}) (mentions g) = []"
    by (auto simp: filter_empty_conv)
  then show ?thesis
    by (simp add: fetch_graph_context_def)
qed

text \<open>
  C7. When no section of the document mentions an entity of salience \<open>CORE\<close> or
  \<open>IMPORTANT\<close>, \<open>fetch_graph_context\<close> returns no row; and whenever it returns no row,
  \<open>global_query_v5\<close> returns the question, the fixed answer and an empty reference list,
  and has invoked no provider, whatever the question and whichever providers are
  configured.
\<close>

theorem global_query_no_context:
  "((\<forall>(s, e) \<in> set (mentions g).
        s_doc_id s = doc_id \<longrightarrow> n_salience e \<notin> {''CORE'', ''IMPORTANT''})
      \<longrightarrow> fetch_graph_context g doc_id 80 = []) \<and>
   (fetch_graph_context g doc_id 80 = [] \<longrightarrow>
      global_query_v5 oc gc summarize question g doc_id =
        (Inr \<lparr>q_query = question,
              q_answer = ''No relevant information found in the document graph.'',
              q_references = []\<rparr>, []))"
  using fetch_graph_context_empty [of g doc_id 80]
  by (simp add: global_query_v5_def Let_def)

theorem global_query_no_context_witness:
  "fetch_graph_context supporting_only ''doc-1'' 80 = [] \<and>
   global_query_v5 (Some answering_provider) (Some answering_provider) (Inr [])
       ''Summarize the revenue'' supporting_only ''doc-1'' =
     (Inr \<lparr>q_query = ''Summarize the revenue'',
           q_answer = ''No relevant information found in the document graph.'',
           q_references = []\<rparr>, [])"
proof -
  have h: "\<forall>(s, e) \<in> set (mentions supporting_only).
             s_doc_id s = ''doc-1'' \<longrightarrow> n_salience e \<notin> {''CORE'', ''IMPORTANT''}"
    by (simp add: supporting_only_def)
  from global_query_no_context
         [of supporting_only "''doc-1''" "Some answering_provider" "Some answering_provider"
             "Inr []" "''Summarize the revenue''"] h
  show ?thesis by blast
qed

section \<open>Community detection: the modes\<close>

lemma str_int_0: "str_int 0 = ''0''"
  by (simp add: str_int_def str_nat.simps)

text \<open>
  C6. With \<open>n\<close> sections and \<open>m\<close> edges in the section graph:
  for \<open>n = 0\<close> the result is the status \<open>empty\<close> and nothing is written;
  for \<open>0 < n \<le> 15\<close> and \<open>m = 0\<close> (so for 15 sections and no edge) the mode is \<open>small\<close>
  and exactly one community is written, with id \<open>0\<close>, size \<open>n\<close> and modularity 0, and
  it contains every section;
  for \<open>n > 15\<close> and \<open>m < n\<close> (so for 16 sections and 10 edges) the result is the status
  \<open>skipped\<close> and nothing is written.
\<close>

theorem detect_section_communities_modes:
  "(let G = get_section_graph rows;
        n = number_of_nodes G;
        m = number_of_edges G;
        result = detect_section_communities best_partition modularity_of rows doc_id
    in (n = 0 \<longrightarrow> result = (Status_empty ''no sections found'', [])) \<and>
       (0 < n \<and> n \<le> 15 \<and> m = 0 \<longrightarrow>
          result = (Status_ok ''small'' 1 0,
                    Merge_community ''0'' doc_id n 0 ''small''
                      # map (\<lambda>sid. Merge_contains doc_id sid ''0'') (nodes G))) \<and>
       (15 < n \<and> m < n \<longrightarrow> result = (Status_skipped ''graph too sparse'' n m, [])))"
  by (simp add: detect_section_communities_def Let_def persist_communities_def str_int_0
        number_of_nodes_def)

theorem detect_section_communities_modes_witness:
  "number_of_nodes (get_section_graph rows_0) = 0 \<and>
   detect_section_communities no_partition no_modularity rows_0 ''doc-1''
     = (Status_empty ''no sections found'', []) \<and>
   number_of_nodes (get_section_graph rows_15) = 15 \<and>
   number_of_edges (get_section_graph rows_15) = 0 \<and>
   detect_section_communities no_partition no_modularity rows_15 ''doc-1''
     = (Status_ok ''small'' 1 0,
        Merge_community ''0'' ''doc-1'' 15 0 ''small''
          # map (\<lambda>sid. Merge_contains ''doc-1'' sid ''0'')
              [''s1'', ''s2'', ''s3'', ''s4'', ''s5'', ''s6'', ''s7'', ''s8'', ''s9'', ''s10'',
               ''s11'', ''s12'', ''s13'', ''s14'', ''s15'']) \<and>
   number_of_nodes (get_section_graph rows_16) = 16 \<and>
   number_of_edges (get_section_graph rows_16) = 10 \<and>
   detect_section_communities no_partition no_modularity rows_16 ''doc-1''
     = (Status_skipped ''graph too sparse'' 16 10, [])"
proof -
  have n0: "nodes (get_section_graph rows_0) = []"
    by code_simp
  have n15: "nodes (get_section_graph rows_15) =
       [''s1'', ''s2'', ''s3'', ''s4'', ''s5'', ''s6'', ''s7'', ''s8'', ''s9'', ''s10'',
        ''s11'', ''s12'', ''s13'', ''s14'', ''s15'']"
    by code_simp
  have e15: "edges (get_section_graph rows_15) = []"
    by code_simp
  have n16: "length (nodes (get_section_graph rows_16)) = 16"
    by code_simp
  have e16: "length (edges (get_section_graph rows_16)) = 10"
    by code_simp
  have r0: "detect_section_communities no_partition no_modularity rows_0 ''doc-1''
     = (Status_empty ''no sections found'', [])"
    using detect_section_communities_modes [of rows_0 no_partition no_modularity "''doc-1''"]
    by (simp add: Let_def number_of_nodes_def n0)
  have r15: "detect_section_communities no_partition no_modularity rows_15 ''doc-1''
     = (Status_ok ''small'' 1 0,
        Merge_community ''0'' ''doc-1'' 15 0 ''small''
          # map (\<lambda>sid. Merge_contains ''doc-1'' sid ''0'')
              [''s1'', ''s2'', ''s3'', ''s4'', ''s5'', ''s6'', ''s7'', ''s8'', ''s9'', ''s10'',
               ''s11'', ''s12'', ''s13'', ''s14'', ''s15''])"
    using detect_section_communities_modes [of rows_15 no_partition no_modularity "''doc-1''"]
    by (simp add: Let_def number_of_nodes_def number_of_edges_def n15 e15)
  have r16: "detect_section_communities no_partition no_modularity rows_16 ''doc-1''
     = (Status_skipped ''graph too sparse'' 16 10, [])"
    using detect_section_communities_modes [of rows_16 no_partition no_modularity "''doc-1''"]
    by (simp add: Let_def number_of_nodes_def number_of_edges_def n16 e16)
  from r0 r15 r16 n0 n15 e15 n16 e16 show ?thesis
    by (simp add: number_of_nodes_def number_of_edges_def)
qed

section \<open>Financial facts: column names\<close>

text \<open>
  C9 fails as stated: the year is only checked to be digits, not to be four of them. The
  column \<open>Group_24\<close> parses to scope \<open>GROUP\<close> and year \<open>24\<close> and enters \<open>col_meta\<close>.
\<close>

theorem parse_column_short_year_counterexample:
  "parse_column ''Group_24'' = (Some ''GROUP'', Some ''24'') \<and>
   column_meta [''Group_24''] = [(''group_24'', ''GROUP'', ''24'')]"
  by code_simp

text \<open>
  C9 as the code has it. \<open>Group_2024\<close> parses to \<open>(GROUP, 2024)\<close> and \<open>Revenue_24\<close>
  to \<open>(None, None)\<close>. A column name parses to \<open>(None, None)\<close> exactly when it has no
  underscore, or the part after the first underscore is empty or not all digits, or the
  part before it, upper-cased, is neither \<open>GROUP\<close> nor \<open>COMPANY\<close>; the number of digits
  is not looked at. A column that parses to \<open>(None, None)\<close> adds nothing to \<open>col_meta\<close>,
  the only columns facts are made from.
\<close>

theorem parse_column_spec:
  "parse_column ''Group_2024'' = (Some ''GROUP'', Some ''2024'') \<and>
   parse_column ''Revenue_24'' = (None, None) \<and>
   (parse_column col = (None, None) \<longleftrightarrow>
      (CHR ''_'' \<notin> set col \<or> \<not> isdigit (snd (split_underscore col)) \<or>
       (\<forall>scope. upper (fst (split_underscore col)) = Some scope
                  \<longrightarrow> scope \<notin> {''GROUP'', ''COMPANY''}))) \<and>
   (parse_column col = (None, None) \<longrightarrow> add_column col col_meta = col_meta)"
proof -
  have a: "parse_column ''Group_2024'' = (Some ''GROUP'', Some ''2024'')"
    by code_simp
  have b: "parse_column ''Revenue_24'' = (None, None)"
    by code_simp
  have c: "parse_column col = (None, None) \<longleftrightarrow>
      (CHR ''_'' \<notin> set col \<or> \<not> isdigit (snd (split_underscore col)) \<or>
       (\<forall>scope. upper (fst (split_underscore col)) = Some scope
                  \<longrightarrow> scope \<notin> {''GROUP'', ''COMPANY''}))"
    by (auto simp: parse_column_def Let_def split: prod.splits option.splits)
  have d: "parse_column col = (None, None) \<longrightarrow> add_column col col_meta = col_meta"
    by (simp add: add_column_def)
  from a b c d show ?thesis by blast
qed

text \<open>The theorem at \<open>Revenue_24\<close>, whose year is digits and whose scope is not allowed;
  and a year that is one superscript digit, which \<open>str.isdigit\<close> accepts.\<close>

theorem parse_column_spec_witness:
  "parse_column ''Revenue_24'' = (None, None) \<and>
   upper (fst (split_underscore ''Revenue_24'')) = Some ''REVENUE'' \<and>
   isdigit (snd (split_underscore ''Revenue_24'')) \<and>
   add_column ''Revenue_24'' [(''group_2024'', ''GROUP'', ''2024'')]
     = [(''group_2024'', ''GROUP'', ''2024'')] \<and>
   column_meta [''Group_2024'', ''Revenue_24''] = [(''group_2024'', ''GROUP'', ''2024'')] \<and>
   parse_column (''Group_'' @ [CHR 0xB2]) = (Some ''GROUP'', Some [CHR 0xB2])"
proof -
  have u: "upper (fst (split_underscore ''Revenue_24'')) = Some ''REVENUE''"
    by code_simp
  have y: "isdigit (snd (split_underscore ''Revenue_24''))"
    by code_simp
  have m: "column_meta [''Group_2024'', ''Revenue_24''] = [(''group_2024'', ''GROUP'', ''2024'')]"
    by code_simp
  have q: "parse_column (''Group_'' @ [CHR 0xB2]) = (Some ''GROUP'', Some [CHR 0xB2])"
    by code_simp
  note t = parse_column_spec [of "''Revenue_24''" "[(''group_2024'', ''GROUP'', ''2024'')]"]
  from t have r: "parse_column ''Revenue_24'' = (None, None)"
    by blast
  with t have a: "add_column ''Revenue_24'' [(''group_2024'', ''GROUP'', ''2024'')]
     = [(''group_2024'', ''GROUP'', ''2024'')]"
    by blast
  from r u y a m q show ?thesis by simp
qed

section \<open>Chunker: the early return and the safety limit\<close>

text \<open>
  C1 at a text of 801 tokens with \<open>chunk_size = 1000\<close>: the text has no more tokens than
  \<open>chunk_size\<close>, so \<open>chunk_by_tokens\<close> returns it as its only chunk before the loop and
  its check against \<open>MAX_CHUNK_SIZE\<close> are reached. The chunk has 801 tokens, above the
  limit of 800, and no error is raised.
\<close>

theorem chunk_by_tokens_early_return_exceeds_limit:
  "chunk_by_tokens char_encode char_decode long_text 1000 100 = Inr [long_text] \<and>
   count_tokens char_encode long_text = 801 \<and>
   MAX_CHUNK_SIZE < count_tokens char_encode long_text"
  by (simp add: chunk_by_tokens_def count_tokens_def char_encode_def long_text_def
        MAX_CHUNK_SIZE_def)

section \<open>Reference extraction: the context gate and the reason\<close>

lemma deduplicate_from_subset: "set (deduplicate_from seen rs) \<subseteq> set rs"
  by (induction rs arbitrary: seen) auto

lemma locator_matches_table_2:
  "locator_matches ''see Table 2 for details'' = [(''TABLE'', Some ''2'', ''see table 2 for details'')]"
  by code_simp

lemma locator_matches_total_assets: "locator_matches ''Total assets were 42.'' = []"
  by code_simp

lemma has_cue_table_2: "has_cue ''see table 2 for details''"
  by code_simp

lemma reason_table_2: "infer_reference_reason ''see table 2 for details'' = ''REFERENCED_IN''"
  by code_simp

text \<open>
  C8 fails as stated at its second example: the window of \<open>see Table 2 for details\<close>
  holds \<open>details\<close>, which is none of \<open>detailed\<close>, \<open>explained\<close>, \<open>described\<close>, so the
  reason of the one reference is \<open>REFERENCED_IN\<close>.
\<close>

theorem reference_reason_counterexample:
  "map reason (extract_cross_section_references ''see Table 2 for details'' ''s1'' ''doc-1'')
     = [''REFERENCED_IN'']"
  by (simp add: extract_cross_section_references_def locator_matches_table_2 has_cue_table_2
        make_reference_def reason_table_2 deduplicate_references_def)

text \<open>
  C8 as the code has it. Every reference returned comes from a match of one of the six
  patterns whose window (60 characters to either side, in lower case) contains a cue
  word, and its reason is \<open>DEFINED_IN\<close> when the window contains \<open>defined\<close>, else
  \<open>DETAILED_IN\<close> when it contains \<open>detailed\<close>, \<open>explained\<close> or \<open>described\<close>, else
  \<open>REFERENCED_IN\<close>. \<open>Total assets were 42.\<close> gives no reference;
  \<open>see Table 2 for details\<close> gives exactly one, of type \<open>TABLE\<close> with locator 2, and
  its reason is \<open>REFERENCED_IN\<close>.
\<close>

theorem reference_context_gate:
  "(\<forall>r \<in> set (extract_cross_section_references text section_id doc_id).
      \<exists>pattern ref_type start endpos cap w.
        (pattern, ref_type) \<in> set patterns \<and>
        (start, endpos, cap) \<in> set (finditer pattern text) \<and>
        w = window_of text start endpos \<and>
        has_cue w \<and>
        r = make_reference section_id doc_id (ref_type, group1 text cap, w) \<and>
        reason r =
          (if contains ''defined'' w then ''DEFINED_IN''
           else if contains ''detailed'' w \<or> contains ''explained'' w \<or> contains ''described'' w
           then ''DETAILED_IN''
           else ''REFERENCED_IN'')) \<and>
   extract_cross_section_references ''Total assets were 42.'' section_id doc_id = [] \<and>
   extract_cross_section_references ''see Table 2 for details'' section_id doc_id =
     [\<lparr>reference_id = doc_id @ '':'' @ section_id @ '':TABLE:2'',
       reference_type = ''TABLE'',
       target_locator = Some ''2'',
       from_section_id = section_id,
       ref_doc_id = doc_id,
       reason = ''REFERENCED_IN''\<rparr>]"
proof -
  have gate: "\<exists>pattern ref_type start endpos cap w.
        (pattern, ref_type) \<in> set patterns \<and>
        (start, endpos, cap) \<in> set (finditer pattern text) \<and>
        w = window_of text start endpos \<and>
        has_cue w \<and>
        r = make_reference section_id doc_id (ref_type, group1 text cap, w) \<and>
        reason r =
          (if contains ''defined'' w then ''DEFINED_IN''
           else if contains ''detailed'' w \<or> contains ''explained'' w \<or> contains ''described'' w
           then ''DETAILED_IN''
           else ''REFERENCED_IN'')"
    if r: "r \<in> set (extract_cross_section_references text section_id doc_id)" for r
  proof -
    from r deduplicate_from_subset
    have "r \<in> set (map (make_reference section_id doc_id)
                 (filter (\<lambda>(ref_type, locator, window). has_cue window)
                    (locator_matches text)))"
      unfolding extract_cross_section_references_def deduplicate_references_def by blast
    then obtain ref_type locator w where
      m: "(ref_type, locator, w) \<in> set (locator_matches text)" and
      c: "has_cue w" and
      e: "r = make_reference section_id doc_id (ref_type, locator, w)"
      by auto
    from m obtain pattern start endpos cap where
      p: "(pattern, ref_type) \<in> set patterns" and
      f: "(start, endpos, cap) \<in> set (finditer pattern text)" and
      l: "locator = group1 text cap" and
      w: "w = window_of text start endpos"
      unfolding locator_matches_def by auto
    have "reason (make_reference section_id doc_id (ref_type, locator, w)) =
          (if contains ''defined'' w then ''DEFINED_IN''
           else if contains ''detailed'' w \<or> contains ''explained'' w \<or> contains ''described'' w
           then ''DETAILED_IN''
           else ''REFERENCED_IN'')"
      by (simp add: make_reference_def infer_reference_reason_def)
    with p f l w c e show ?thesis by blast
  qed
  have none: "extract_cross_section_references ''Total assets were 42.'' section_id doc_id = []"
    by (simp add: extract_cross_section_references_def locator_matches_total_assets
          deduplicate_references_def)
  have one: "extract_cross_section_references ''see Table 2 for details'' section_id doc_id =
     [\<lparr>reference_id = doc_id @ '':'' @ section_id @ '':TABLE:2'',
       reference_type = ''TABLE'',
       target_locator = Some ''2'',
       from_section_id = section_id,
       ref_doc_id = doc_id,
       reason = ''REFERENCED_IN''\<rparr>]"
    by (simp add: extract_cross_section_references_def locator_matches_table_2 has_cue_table_2
          make_reference_def reason_table_2 deduplicate_references_def str_opt_def)
  from gate none one show ?thesis by blast
qed

text \<open>The theorem at \<open>see Table 2 for details\<close>; a locator without a cue word
  in its window, \<open>Table 2 lists assets.\<close>, which matches and is dropped; a locator
  whose whitespace is a no-break space, which matches; and \<open>table 2\<close> right after a
  letter with an accent, where no word starts and nothing matches.\<close>

theorem reference_context_gate_witness:
  "locator_matches ''Table 2 lists assets.'' = [(''TABLE'', Some ''2'', ''table 2 lists assets.'')] \<and>
   \<not> has_cue ''table 2 lists assets.'' \<and>
   extract_cross_section_references ''Table 2 lists assets.'' ''s1'' ''doc-1'' = [] \<and>
   locator_matches nbsp_locator = [(''TABLE'', Some ''2'', nbsp_locator)] \<and>
   map reference_id (extract_cross_section_references nbsp_locator ''s1'' ''doc-1'')
     = [''doc-1:s1:TABLE:2''] \<and>
   extract_cross_section_references accent_locator ''s1'' ''doc-1'' = [] \<and>
   extract_cross_section_references ''see Table 2 for details'' ''s1'' ''doc-1'' =
     [\<lparr>reference_id = ''doc-1:s1:TABLE:2'', reference_type = ''TABLE'',
       target_locator = Some ''2'', from_section_id = ''s1'', ref_doc_id = ''doc-1'',
       reason = ''REFERENCED_IN''\<rparr>] \<and>
   (\<exists>pattern start endpos cap.
      (pattern, ''TABLE'') \<in> set patterns \<and>
      (start, endpos, cap) \<in> set (finditer pattern ''see Table 2 for details'') \<and>
      has_cue (window_of ''see Table 2 for details'' start endpos) \<and>
      \<not> contains ''defined'' (window_of ''see Table 2 for details'' start endpos) \<and>
      group1 ''see Table 2 for details'' cap = Some ''2'')"
proof -
  let ?t = "''see Table 2 for details''"
  let ?r = "\<lparr>reference_id = ''doc-1:s1:TABLE:2'', reference_type = ''TABLE'',
       target_locator = Some ''2'', from_section_id = ''s1'', ref_doc_id = ''doc-1'',
       reason = ''REFERENCED_IN''\<rparr>"
  have lm: "locator_matches ''Table 2 lists assets.''
              = [(''TABLE'', Some ''2'', ''table 2 lists assets.'')]"
    by code_simp
  have nc: "\<not> has_cue ''table 2 lists assets.''"
    by code_simp
  have dropped: "extract_cross_section_references ''Table 2 lists assets.'' ''s1'' ''doc-1'' = []"
    by (simp add: extract_cross_section_references_def lm nc deduplicate_references_def)
  have ln: "locator_matches nbsp_locator = [(''TABLE'', Some ''2'', nbsp_locator)]"
    by code_simp
  have en: "map reference_id (extract_cross_section_references nbsp_locator ''s1'' ''doc-1'')
     = [''doc-1:s1:TABLE:2'']"
    by code_simp
  have ea: "extract_cross_section_references accent_locator ''s1'' ''doc-1'' = []"
    by code_simp
  note t = reference_context_gate [of ?t "''s1''" "''doc-1''"]
  from t have ev: "extract_cross_section_references ?t ''s1'' ''doc-1'' = [?r]"
    by simp
  then have "?r \<in> set (extract_cross_section_references ?t ''s1'' ''doc-1'')"
    by simp
  with t obtain pattern ref_type start endpos cap w where
    p: "(pattern, ref_type) \<in> set patterns" and
    f: "(start, endpos, cap) \<in> set (finditer pattern ?t)" and
    w: "w = window_of ?t start endpos" and
    c: "has_cue w" and
    e: "?r = make_reference ''s1'' ''doc-1'' (ref_type, group1 ?t cap, w)" and
    q: "reason ?r =
          (if contains ''defined'' w then ''DEFINED_IN''
           else if contains ''detailed'' w \<or> contains ''explained'' w \<or> contains ''described'' w
           then ''DETAILED_IN''
           else ''REFERENCED_IN'')"
    by blast
  from e have ty: "ref_type = ''TABLE''" and g: "group1 ?t cap = Some ''2''"
    by (simp_all add: make_reference_def)
  from q have d: "\<not> contains ''defined'' w"
    by (simp split: if_splits)
  from p f w c ty g d have "\<exists>pattern start endpos cap.
      (pattern, ''TABLE'') \<in> set patterns \<and>
      (start, endpos, cap) \<in> set (finditer pattern ?t) \<and>
      has_cue (window_of ?t start endpos) \<and>
      \<not> contains ''defined'' (window_of ?t start endpos) \<and>
      group1 ?t cap = Some ''2''"
    by blast
  with lm nc dropped ln en ea ev show ?thesis by simp
qed

section \<open>Chunker: normalization\<close>

subsection \<open>Characters\<close>

lemma is_space_newline: "is_space newline"
  by (simp add: is_space_def newline_def)

lemma is_linebreak_newline: "is_linebreak newline"
  by (simp add: is_linebreak_def)

lemma is_linebreak_space: "is_linebreak c \<Longrightarrow> is_space c"
  by (auto simp: is_linebreak_def is_space_def newline_def)

lemma is_blank_space: "is_blank c \<Longrightarrow> is_space c"
  by (auto simp: is_blank_def is_space_def)

lemma not_blank_newline: "\<not> is_blank newline"
  by (simp add: is_blank_def newline_def)

subsection \<open>Collapsing newlines\<close>

lemma cn_Nil: "collapse_newlines [] = []"
  by (simp add: collapse_newlines_def)

lemma cn_Cons:
  "collapse_newlines (c # cs) =
     (if c = newline \<and> 2 \<le> length (takeWhile isnl cs)
      then newline # newline # collapse_newlines (dropWhile isnl cs)
      else c # collapse_newlines cs)"
  by (simp add: collapse_newlines_def)

lemma cn_run:
  "2 \<le> length (takeWhile isnl cs) \<Longrightarrow>
     collapse_newlines (newline # cs) = newline # newline # collapse_newlines (dropWhile isnl cs)"
  by (simp add: cn_Cons)

lemma cn_keep:
  "\<not> (c = newline \<and> 2 \<le> length (takeWhile isnl cs)) \<Longrightarrow>
     collapse_newlines (c # cs) = c # collapse_newlines cs"
  by (auto simp: cn_Cons)

lemma cn_Nil_iff: "collapse_newlines s = [] \<longleftrightarrow> s = []"
  by (cases s) (simp_all add: cn_Nil cn_Cons)

lemma cn_hd: "s \<noteq> [] \<Longrightarrow> hd (collapse_newlines s) = hd s"
  by (cases s) (simp_all add: cn_Cons)

text \<open>A run of newlines at the head of a text, and what follows it.\<close>

lemma newline_run:
  assumes "r = takeWhile isnl cs" and "d = dropWhile isnl cs"
  shows "cs = r @ d" and "\<forall>x \<in> set r. x = newline" and "d = [] \<or> hd d \<noteq> newline"
    and "length d \<le> length cs" and "set d \<subseteq> set cs"
proof -
  show "cs = r @ d" using assms by simp
  show "\<forall>x \<in> set r. x = newline" using assms by (auto dest: set_takeWhileD)
  show "d = [] \<or> hd d \<noteq> newline" using assms hd_dropWhile [of isnl cs] by auto
  show "length d \<le> length cs" using assms by (simp add: length_dropWhile_le)
  show "set d \<subseteq> set cs" using assms by (auto dest: set_dropWhileD)
qed

lemma cn_set: "set (collapse_newlines s) \<subseteq> set s"
proof (induction s rule: measure_induct_rule [where f = length])
  case (less s)
  show ?case
  proof (cases s)
    case Nil
    then show ?thesis by (simp add: cn_Nil)
  next
    case (Cons c cs)
    define r where "r = takeWhile isnl cs"
    define d where "d = dropWhile isnl cs"
    note run = newline_run [OF r_def d_def]
    show ?thesis
    proof (cases "c = newline \<and> 2 \<le> length r")
      case True
      then have eq: "collapse_newlines s = newline # newline # collapse_newlines d"
        unfolding Cons r_def d_def by (simp add: cn_run)
      have "set (collapse_newlines d) \<subseteq> set d"
        using run(4) Cons by (intro less.IH) simp
      with run(5) eq True Cons show ?thesis by auto
    next
      case False
      then have eq: "collapse_newlines s = c # collapse_newlines cs"
        unfolding Cons r_def by (rule cn_keep)
      have "set (collapse_newlines cs) \<subseteq> set cs"
        using Cons by (intro less.IH) simp
      with eq Cons show ?thesis by auto
    qed
  qed
qed

lemma cn_last: "s \<noteq> [] \<Longrightarrow> last (collapse_newlines s) = last s"
proof (induction s rule: measure_induct_rule [where f = length])
  case (less s)
  from less.prems obtain c cs where s: "s = c # cs" by (cases s) auto
  define r where "r = takeWhile isnl cs"
  define d where "d = dropWhile isnl cs"
  note run = newline_run [OF r_def d_def]
  show ?case
  proof (cases "c = newline \<and> 2 \<le> length r")
    case True
    then have eq: "collapse_newlines s = newline # newline # collapse_newlines d"
      unfolding s r_def d_def by (simp add: cn_run)
    from True have rne: "r \<noteq> []" by auto
    show ?thesis
    proof (cases "d = []")
      case dnil: True
      from run(1) dnil have "cs = r" by simp
      with run(2) rne have "last cs = newline" and "cs \<noteq> []" by simp_all
      with eq dnil s show ?thesis by (simp add: cn_Nil)
    next
      case False
      have "last (collapse_newlines d) = last d"
        using False run(4) s by (intro less.IH) simp_all
      moreover have "last s = last d"
      proof -
        from run(1) False have "cs \<noteq> []" and "last cs = last d"
          by (auto simp: last_append)
        with s show ?thesis by simp
      qed
      ultimately show ?thesis
        using eq False by (simp add: cn_Nil_iff)
    qed
  next
    case False
    then have eq: "collapse_newlines s = c # collapse_newlines cs"
      unfolding s r_def by (rule cn_keep)
    show ?thesis
    proof (cases "cs = []")
      case True
      with s eq show ?thesis by (simp add: cn_Nil)
    next
      case ne: False
      then have "last (collapse_newlines cs) = last cs"
        using s by (intro less.IH) simp_all
      with s eq ne show ?thesis
        by (simp add: cn_Nil_iff)
    qed
  qed
qed

lemma cn_successively:
  "successively R s \<Longrightarrow> successively R (collapse_newlines s)"
proof (induction s rule: measure_induct_rule [where f = length])
  case (less s)
  show ?case
  proof (cases s)
    case Nil
    then show ?thesis by (simp add: cn_Nil)
  next
    case (Cons c cs)
    define r where "r = takeWhile isnl cs"
    define d where "d = dropWhile isnl cs"
    note run = newline_run [OF r_def d_def]
    show ?thesis
    proof (cases "c = newline \<and> 2 \<le> length r")
      case True
      then have eq: "collapse_newlines s = newline # newline # collapse_newlines d"
        unfolding Cons r_def d_def by (simp add: cn_run)
      from True have rne: "r \<noteq> []" by auto
      with run(1) have csne: "cs \<noteq> []" by auto
      from rne run(2) have lastr: "last r = newline" and hdr: "hd r = newline" by simp_all
      from rne hdr run(1) have hdcs: "hd cs = newline"
        using hd_append2 [of r d] by simp
      from less.prems Cons csne have Rcc: "R c (hd cs)" and succ_cs: "successively R cs"
        by (simp_all add: successively_Cons)
      from succ_cs run(1) have "successively R (r @ d)" by simp
      with rne have sd: "successively R d" and bd: "d = [] \<or> R (last r) (hd d)"
        by (simp_all add: successively_append_iff)
      have IH: "successively R (collapse_newlines d)"
        using sd run(4) Cons by (intro less.IH) simp_all
      have nn: "R newline newline" using Rcc True hdcs by simp
      have "collapse_newlines d = [] \<or> R newline (hd (collapse_newlines d))"
      proof (cases "d = []")
        case True
        then show ?thesis by (simp add: cn_Nil)
      next
        case False
        with bd lastr have "R newline (hd d)" by auto
        with False show ?thesis by (simp add: cn_hd)
      qed
      with nn IH have "successively R (newline # newline # collapse_newlines d)"
        by (simp add: successively_Cons)
      with eq show ?thesis by simp
    next
      case False
      then have eq: "collapse_newlines s = c # collapse_newlines cs"
        unfolding Cons r_def by (rule cn_keep)
      have IH: "successively R (collapse_newlines cs)"
        using less.prems Cons by (intro less.IH) (auto simp: successively_Cons)
      have "collapse_newlines cs = [] \<or> R c (hd (collapse_newlines cs))"
      proof (cases "cs = []")
        case True
        then show ?thesis by (simp add: cn_Nil)
      next
        case False
        with less.prems Cons have "R c (hd cs)" by (simp add: successively_Cons)
        with False show ?thesis by (simp add: cn_hd)
      qed
      with IH have "successively R (c # collapse_newlines cs)"
        by (simp add: successively_Cons)
      with eq show ?thesis by simp
    qed
  qed
qed

text \<open>After the collapse a run of newlines at the head has at most two.\<close>

lemma cn_run_length:
  "length (takeWhile isnl (collapse_newlines s)) = min 2 (length (takeWhile isnl s))"
proof (induction s rule: measure_induct_rule [where f = length])
  case (less s)
  show ?case
  proof (cases s)
    case Nil
    then show ?thesis by (simp add: cn_Nil)
  next
    case (Cons c cs)
    define r where "r = takeWhile isnl cs"
    define d where "d = dropWhile isnl cs"
    note run = newline_run [OF r_def d_def]
    show ?thesis
    proof (cases "c = newline")
      case False
      then have "collapse_newlines s = c # collapse_newlines cs"
        unfolding Cons by (intro cn_keep) simp
      with False Cons show ?thesis by simp
    next
      case c: True
      show ?thesis
      proof (cases "2 \<le> length r")
        case True
        with c have eq: "collapse_newlines s = newline # newline # collapse_newlines d"
          unfolding Cons r_def d_def by (simp add: cn_run)
        have "takeWhile isnl d = []"
          using run(3) by (cases d) auto
        moreover have "length (takeWhile isnl (collapse_newlines d))
                         = min 2 (length (takeWhile isnl d))"
          using run(4) Cons by (intro less.IH) simp
        ultimately have "takeWhile isnl (collapse_newlines d) = []" by simp
        with eq have "length (takeWhile isnl (collapse_newlines s)) = 2" by simp
        moreover from True c Cons have "2 \<le> length (takeWhile isnl s)"
          by (simp add: r_def)
        ultimately show ?thesis by simp
      next
        case False
        with c have eq: "collapse_newlines s = c # collapse_newlines cs"
          unfolding Cons r_def by (intro cn_keep) simp
        have "length (takeWhile isnl (collapse_newlines cs)) = min 2 (length r)"
          unfolding r_def using Cons by (intro less.IH) simp
        with False eq c Cons show ?thesis by (simp add: r_def)
      qed
    qed
  qed
qed

lemma cn_idem: "collapse_newlines (collapse_newlines s) = collapse_newlines s"
proof (induction s rule: measure_induct_rule [where f = length])
  case (less s)
  show ?case
  proof (cases s)
    case Nil
    then show ?thesis by (simp add: cn_Nil)
  next
    case (Cons c cs)
    define r where "r = takeWhile isnl cs"
    define d where "d = dropWhile isnl cs"
    note run = newline_run [OF r_def d_def]
    show ?thesis
    proof (cases "c = newline \<and> 2 \<le> length r")
      case True
      then have eq: "collapse_newlines s = newline # newline # collapse_newlines d"
        unfolding Cons r_def d_def by (simp add: cn_run)
      have "takeWhile isnl d = []"
        using run(3) by (cases d) auto
      then have t0: "takeWhile isnl (collapse_newlines d) = []"
        using cn_run_length [of d] by simp
      have IH: "collapse_newlines (collapse_newlines d) = collapse_newlines d"
        using run(4) Cons by (intro less.IH) simp
      have "collapse_newlines (newline # collapse_newlines d)
              = newline # collapse_newlines (collapse_newlines d)"
        using t0 by (intro cn_keep) simp
      moreover have "collapse_newlines (newline # newline # collapse_newlines d)
              = newline # collapse_newlines (newline # collapse_newlines d)"
        using t0 by (intro cn_keep) simp
      ultimately show ?thesis using eq IH by simp
    next
      case False
      then have eq: "collapse_newlines s = c # collapse_newlines cs"
        unfolding Cons r_def by (rule cn_keep)
      have IH: "collapse_newlines (collapse_newlines cs) = collapse_newlines cs"
        using Cons by (intro less.IH) simp
      have "length (takeWhile isnl (collapse_newlines cs)) = min 2 (length r)"
        unfolding r_def by (rule cn_run_length)
      with False have "\<not> (c = newline \<and> 2 \<le> length (takeWhile isnl (collapse_newlines cs)))"
        by auto
      then have "collapse_newlines (c # collapse_newlines cs)
                   = c # collapse_newlines (collapse_newlines cs)"
        by (rule cn_keep)
      with eq IH show ?thesis by simp
    qed
  qed
qed

text \<open>A text without three newlines in a row is left as it is.\<close>

lemma cn_fixed:
  "\<not> contains [newline, newline, newline] s \<Longrightarrow> collapse_newlines s = s"
proof (induction s)
  case Nil
  then show ?case by (simp add: cn_Nil)
next
  case (Cons c cs)
  from Cons.prems have a: "\<not> starts_with [newline, newline, newline] (c # cs)"
    and b: "\<not> contains [newline, newline, newline] cs"
    by simp_all
  have "\<not> (c = newline \<and> 2 \<le> length (takeWhile isnl cs))"
  proof
    assume h: "c = newline \<and> 2 \<le> length (takeWhile isnl cs)"
    then have "2 \<le> length cs"
      using length_takeWhile_le [of isnl cs] by linarith
    then obtain x y zs where cs: "cs = x # y # zs"
      by (cases cs; cases "tl cs") auto
    with h have "x = newline \<and> y = newline"
      by (cases "x = newline"; cases "y = newline") simp_all
    with h cs a show False by simp
  qed
  then have "collapse_newlines (c # cs) = c # collapse_newlines cs"
    by (rule cn_keep)
  with Cons.IH [OF b] show ?case by simp
qed

subsection \<open>Normalized texts\<close>

lemma rstrip_fixed: "l = [] \<or> \<not> is_space (last l) \<Longrightarrow> rstrip l = l"
  by (cases l rule: rev_cases) (auto simp: rstrip_def)

lemma rstrip_prefix: "\<exists>b. l = rstrip l @ b"
proof -
  have "rev (dropWhile is_space (rev l)) @ rev (takeWhile is_space (rev l))
          = rev (takeWhile is_space (rev l) @ dropWhile is_space (rev l))"
    by (simp only: rev_append)
  also have "\<dots> = rev (rev l)"
    by (simp only: takeWhile_dropWhile_id)
  also have "\<dots> = l"
    by simp
  finally have "l = rstrip l @ rev (takeWhile is_space (rev l))"
    by (simp only: rstrip_def)
  then show ?thesis ..
qed

lemma rstrip_last: "rstrip l = [] \<or> \<not> is_space (last (rstrip l))"
proof (cases "dropWhile is_space (rev l) = []")
  case True
  then show ?thesis by (simp add: rstrip_def)
next
  case False
  then have "\<not> is_space (hd (dropWhile is_space (rev l)))" by (rule hd_dropWhile)
  with False show ?thesis by (simp add: rstrip_def last_rev)
qed

lemma strip_fixed:
  assumes "y = [] \<or> \<not> is_space (hd y) \<and> \<not> is_space (last y)"
  shows "strip y = y"
proof (cases "y = []")
  case True
  then show ?thesis by (simp add: strip_def rstrip_def)
next
  case False
  with assms have "rstrip y = y" by (intro rstrip_fixed) simp
  moreover from False assms have "dropWhile is_space y = y"
    by (cases y) auto
  ultimately show ?thesis by (simp add: strip_def)
qed

lemma strip_infix: "\<exists>a b. s = a @ strip s @ b"
proof -
  obtain b where b: "s = rstrip s @ b" using rstrip_prefix by blast
  have "rstrip s = takeWhile is_space (rstrip s) @ strip s"
    by (simp add: strip_def)
  with b have "s = takeWhile is_space (rstrip s) @ strip s @ b" by (metis append_assoc)
  then show ?thesis by blast
qed

lemma strip_ends: "strip s = [] \<or> \<not> is_space (hd (strip s)) \<and> \<not> is_space (last (strip s))"
proof (cases "strip s = []")
  case True
  then show ?thesis by simp
next
  case False
  then have ne: "dropWhile is_space (rstrip s) \<noteq> []" by (simp add: strip_def)
  then have h: "\<not> is_space (hd (strip s))"
    unfolding strip_def by (rule hd_dropWhile)
  have "rstrip s = takeWhile is_space (rstrip s) @ strip s"
    by (simp add: strip_def)
  with False have "last (rstrip s) = last (strip s)"
    by (metis last_appendR)
  moreover from ne have "rstrip s \<noteq> []" by auto
  ultimately have "\<not> is_space (last (strip s))"
    using rstrip_last [of s] by auto
  with h show ?thesis by simp
qed

subsection \<open>Collapsing blanks\<close>

lemma cb_Nil: "collapse_blanks [] = []"
  by (simp add: collapse_blanks_def)

lemma cb_run:
  "is_blank c \<Longrightarrow> takeWhile is_blank cs \<noteq> [] \<Longrightarrow>
     collapse_blanks (c # cs) = CHR '' '' # collapse_blanks (dropWhile is_blank cs)"
  by (cases "takeWhile is_blank cs") (simp_all add: collapse_blanks_def)

lemma cb_keep:
  "\<not> (is_blank c \<and> takeWhile is_blank cs \<noteq> []) \<Longrightarrow>
     collapse_blanks (c # cs) = c # collapse_blanks cs"
  by (cases "takeWhile is_blank cs") (auto simp: collapse_blanks_def)

lemma cb_fixed: "successively not_both_blank z \<Longrightarrow> collapse_blanks z = z"
proof (induction z)
  case Nil
  then show ?case by (simp add: cb_Nil)
next
  case (Cons c cs)
  from Cons.prems have s: "successively not_both_blank cs"
    and h: "cs = [] \<or> not_both_blank c (hd cs)"
    by (auto simp: successively_Cons)
  have "\<not> (is_blank c \<and> takeWhile is_blank cs \<noteq> [])"
  proof
    assume a: "is_blank c \<and> takeWhile is_blank cs \<noteq> []"
    then obtain x xs where cs: "cs = x # xs" by (cases cs) auto
    with a have "is_blank x" by (cases "is_blank x") auto
    with a cs h show False by (simp add: not_both_blank_def)
  qed
  then have "collapse_blanks (c # cs) = c # collapse_blanks cs" by (rule cb_keep)
  with Cons.IH [OF s] show ?case by simp
qed

lemma cb_hd_blank:
  assumes "collapse_blanks w \<noteq> []" and "is_blank (hd (collapse_blanks w))"
  shows "w \<noteq> [] \<and> is_blank (hd w)"
proof (cases w)
  case Nil
  with assms show ?thesis by (simp add: cb_Nil)
next
  case (Cons c cs)
  show ?thesis
  proof (cases "is_blank c \<and> takeWhile is_blank cs \<noteq> []")
    case True
    with Cons show ?thesis by simp
  next
    case False
    then have "collapse_blanks (c # cs) = c # collapse_blanks cs" by (rule cb_keep)
    with assms Cons show ?thesis by simp
  qed
qed

lemma cb_successively: "successively not_both_blank (collapse_blanks w)"
proof (induction w rule: measure_induct_rule [where f = length])
  case (less w)
  show ?case
  proof (cases w)
    case Nil
    then show ?thesis by (simp add: cb_Nil)
  next
    case (Cons c cs)
    define d where "d = dropWhile is_blank cs"
    have dlen: "length d \<le> length cs"
      unfolding d_def by (rule length_dropWhile_le)
    have dhd: "d = [] \<or> \<not> is_blank (hd d)"
      unfolding d_def using hd_dropWhile [of is_blank cs] by auto
    show ?thesis
    proof (cases "is_blank c \<and> takeWhile is_blank cs \<noteq> []")
      case True
      then have eq: "collapse_blanks w = CHR '' '' # collapse_blanks d"
        unfolding Cons d_def by (simp add: cb_run)
      have IH: "successively not_both_blank (collapse_blanks d)"
        using dlen Cons by (intro less.IH) simp
      have "collapse_blanks d = [] \<or> \<not> is_blank (hd (collapse_blanks d))"
        using cb_hd_blank [of d] dhd by blast
      then have "collapse_blanks d = []
                  \<or> not_both_blank (CHR '' '') (hd (collapse_blanks d))"
        by (auto simp: not_both_blank_def)
      with IH eq show ?thesis by (simp add: successively_Cons)
    next
      case False
      then have eq: "collapse_blanks w = c # collapse_blanks cs"
        unfolding Cons by (rule cb_keep)
      have IH: "successively not_both_blank (collapse_blanks cs)"
        using Cons by (intro less.IH) simp
      have "collapse_blanks cs = [] \<or> not_both_blank c (hd (collapse_blanks cs))"
      proof (cases "is_blank c")
        case nb: False
        then show ?thesis by (simp add: not_both_blank_def)
      next
        case True
        with False have t: "takeWhile is_blank cs = []" by simp
        have "cs = [] \<or> \<not> is_blank (hd cs)"
          using t by (cases cs) (auto split: if_splits)
        with cb_hd_blank [of cs] have "collapse_blanks cs = [] \<or> \<not> is_blank (hd (collapse_blanks cs))"
          by blast
        then show ?thesis by (auto simp: not_both_blank_def)
      qed
      with IH eq show ?thesis by (simp add: successively_Cons)
    qed
  qed
qed

subsection \<open>Lines\<close>

lemma splitlines_unfold:
  "s \<noteq> [] \<Longrightarrow>
   splitlines s =
     (case dropWhile inline s of
        [] \<Rightarrow> [takeWhile inline s]
      | b # rest' \<Rightarrow>
          takeWhile inline s
            # splitlines (if b = CHR 0x0D \<and> starts_with nl rest' then tl rest' else rest'))"
proof -
  assume "s \<noteq> []"
  then obtain c cs where s: "s = c # cs" by (cases s) auto
  show ?thesis
    unfolding s by (simp only: splitlines.simps Let_def)
qed

lemma splitlines_last_line:
  "s \<noteq> [] \<Longrightarrow> dropWhile inline s = [] \<Longrightarrow> splitlines s = [takeWhile inline s]"
  by (subst splitlines_unfold, assumption, simp only: list.case)

lemma splitlines_next_line:
  "s \<noteq> [] \<Longrightarrow> dropWhile inline s = b # rest' \<Longrightarrow>
     splitlines s =
       takeWhile inline s
         # splitlines (if b = CHR 0x0D \<and> starts_with nl rest' then tl rest' else rest')"
  by (subst splitlines_unfold, assumption, simp only: list.case)

lemma splitlines_Nil_iff: "splitlines s = [] \<longleftrightarrow> s = []"
proof (cases "s = []")
  case True
  then show ?thesis by simp
next
  case False
  then show ?thesis
    by (simp add: splitlines_unfold split: list.split)
qed

lemma join_Cons: "ls \<noteq> [] \<Longrightarrow> join sep (l # ls) = l @ sep @ join sep ls"
  by (cases ls) simp_all

text \<open>Where only the newline breaks lines, and no line ends in whitespace, splitting,
  stripping the lines and joining them gives the text back.\<close>

lemma lines_fixed:
  assumes "\<forall>c \<in> set z. is_linebreak c \<longrightarrow> c = newline"
    and "successively before_newline_ok z"
    and "z = [] \<or> \<not> is_space (last z)"
  shows "join nl (map rstrip (splitlines z)) = z"
  using assms
proof (induction z rule: measure_induct_rule [where f = length])
  case (less z)
  show ?case
  proof (cases "z = []")
    case True
    then show ?thesis by simp
  next
    case False
    define l where "l = takeWhile inline z"
    define rest where "rest = dropWhile inline z"
    have z: "z = l @ rest" by (simp add: l_def rest_def)
    have linline: "\<forall>c \<in> set l. \<not> is_linebreak c"
      unfolding l_def by (auto dest: set_takeWhileD)
    show ?thesis
    proof (cases rest)
      case Nil
      with z have "l = z" by simp
      moreover from False Nil have "splitlines z = [l]"
        unfolding l_def rest_def by (rule splitlines_last_line)
      moreover from less.prems(3) have "rstrip z = z" by (rule rstrip_fixed)
      ultimately show ?thesis by simp
    next
      case (Cons b rest')
      have "rest \<noteq> []" using Cons by simp
      then have "\<not> inline (hd rest)" unfolding rest_def by (rule hd_dropWhile)
      with Cons have "is_linebreak b" by simp
      moreover have "b \<in> set z" using z Cons by simp
      ultimately have b: "b = newline" using less.prems(1) by blast
      have zl: "z = l @ newline # rest'" using z Cons b by simp
      have "splitlines z = l # splitlines (if b = CHR 0x0D \<and> starts_with nl rest'
                                            then tl rest' else rest')"
        using False Cons unfolding l_def rest_def by (rule splitlines_next_line)
      with b have sp: "splitlines z = l # splitlines rest'"
        by (simp add: newline_def)
      have rl: "rstrip l = l"
      proof (cases "l = []")
        case True
        then show ?thesis by (simp add: rstrip_def)
      next
        case lne: False
        from less.prems(2) have "successively before_newline_ok (l @ newline # rest')"
          using zl by simp
        with lne have "before_newline_ok (last l) newline"
          by (simp add: successively_append_iff)
        moreover from lne linline have "\<not> is_linebreak (last l)" by simp
        then have "last l \<noteq> newline" using is_linebreak_newline by auto
        ultimately have "\<not> is_space (last l)" by (simp add: before_newline_ok_def)
        then show ?thesis by (intro rstrip_fixed) simp
      qed
      have rne: "rest' \<noteq> []"
      proof
        assume "rest' = []"
        with zl have "last z = newline" by simp
        with less.prems(3) False is_space_newline show False by simp
      qed
      have "successively before_newline_ok (newline # rest')"
        using less.prems(2) zl by (simp add: successively_append_iff)
      with rne have s': "successively before_newline_ok rest'"
        by (simp add: successively_Cons)
      have last': "\<not> is_space (last rest')"
        using less.prems(3) False zl rne by simp
      have "join nl (map rstrip (splitlines rest')) = rest'"
      proof (rule less.IH)
        show "length rest' < length z" using zl by simp
        show "\<forall>c \<in> set rest'. is_linebreak c \<longrightarrow> c = newline"
          using less.prems(1) zl by simp
        show "successively before_newline_ok rest'" by (rule s')
        show "rest' = [] \<or> \<not> is_space (last rest')" using last' by simp
      qed
      moreover have "map rstrip (splitlines rest') \<noteq> []"
        using rne by (simp add: splitlines_Nil_iff)
      ultimately have "join nl (l # map rstrip (splitlines rest')) = l @ nl @ rest'"
        by (simp add: join_Cons)
      with sp rl zl show ?thesis by (simp add: nl_def)
    qed
  qed
qed

text \<open>Every line of \<open>splitlines\<close> is a piece of the text without a line break in it.\<close>

lemma splitlines_lines:
  "l \<in> set (splitlines x) \<Longrightarrow> (\<forall>c \<in> set l. \<not> is_linebreak c) \<and> (\<exists>a b. x = a @ l @ b)"
proof (induction x arbitrary: l rule: measure_induct_rule [where f = length])
  case (less x)
  from less.prems have xne: "x \<noteq> []" by auto
  define l0 where "l0 = takeWhile inline x"
  define rest where "rest = dropWhile inline x"
  have x: "x = l0 @ rest" by (simp add: l0_def rest_def)
  have l0inline: "\<forall>c \<in> set l0. \<not> is_linebreak c"
    unfolding l0_def by (auto dest: set_takeWhileD)
  show ?case
  proof (cases rest)
    case Nil
    with xne have "splitlines x = [l0]"
      unfolding l0_def rest_def by (rule splitlines_last_line)
    with less.prems have "l = l0" by simp
    moreover from x Nil have "x = [] @ l0 @ []" by simp
    ultimately show ?thesis using l0inline by blast
  next
    case (Cons b rest')
    define arg where "arg = (if b = CHR 0x0D \<and> starts_with nl rest' then tl rest' else rest')"
    have sp: "splitlines x = l0 # splitlines arg"
      using xne Cons unfolding l0_def rest_def arg_def by (rule splitlines_next_line)
    have "\<exists>pre. rest' = pre @ arg"
    proof (cases "b = CHR 0x0D \<and> starts_with nl rest'")
      case True
      then have "rest' \<noteq> []" by (cases rest') (auto simp: nl_def)
      then have "rest' = [hd rest'] @ tl rest'" by simp
      with True show ?thesis unfolding arg_def by (metis (full_types))
    next
      case False
      then have "arg = rest'" unfolding arg_def by auto
      then have "rest' = [] @ arg" by simp
      then show ?thesis ..
    qed
    then obtain pre where pre: "rest' = pre @ arg" ..
    from less.prems sp have "l = l0 \<or> l \<in> set (splitlines arg)" by simp
    then show ?thesis
    proof
      assume "l = l0"
      moreover from x have "x = [] @ l0 @ rest" by simp
      ultimately show ?thesis using l0inline by blast
    next
      assume a: "l \<in> set (splitlines arg)"
      have "length arg < length x"
        using x Cons pre by simp
      from less.IH [OF this a] obtain a' b' where
        i: "\<forall>c \<in> set l. \<not> is_linebreak c" and e: "arg = a' @ l @ b'"
        by blast
      from x Cons pre e have "x = (l0 @ b # pre @ a') @ l @ b'" by simp
      with i show ?thesis by blast
    qed
  qed
qed

subsection \<open>Joined lines\<close>

lemma join_set: "set (join nl ls) \<subseteq> \<Union> (set ` set ls) \<union> {newline}"
proof (induction ls)
  case Nil
  then show ?case by simp
next
  case (Cons x ls)
  then show ?case by (cases ls) (auto simp: nl_def)
qed

lemma join_hd:
  assumes "join nl ls \<noteq> []"
  shows "hd (join nl ls) = newline \<or> (\<exists>l \<in> set ls. l \<noteq> [] \<and> hd (join nl ls) = hd l)"
proof (cases ls)
  case Nil
  with assms show ?thesis by simp
next
  case (Cons x xs)
  show ?thesis
  proof (cases xs)
    case Nil
    with Cons assms show ?thesis by simp
  next
    case c2: (Cons y ys)
    show ?thesis
    proof (cases "x = []")
      case True
      with Cons c2 show ?thesis by (simp add: nl_def)
    next
      case False
      with Cons c2 show ?thesis by simp
    qed
  qed
qed

lemma join_successively:
  assumes "R newline newline"
    and "\<forall>l \<in> set ls. successively R l \<and> (l \<noteq> [] \<longrightarrow> R (last l) newline \<and> R newline (hd l))"
  shows "successively R (join nl ls)"
  using assms(2)
proof (induction ls)
  case Nil
  then show ?case by simp
next
  case (Cons x ls)
  show ?case
  proof (cases "ls = []")
    case True
    with Cons.prems show ?thesis by simp
  next
    case False
    let ?J = "join nl ls"
    have IH: "successively R ?J" using Cons by simp
    have hdJ: "?J = [] \<or> R newline (hd ?J)"
    proof (cases "?J = []")
      case True
      then show ?thesis ..
    next
      case ne: False
      from join_hd [OF ne] show ?thesis
      proof
        assume "hd ?J = newline"
        with assms(1) show ?thesis by simp
      next
        assume "\<exists>l \<in> set ls. l \<noteq> [] \<and> hd ?J = hd l"
        then obtain l where "l \<in> set ls" "l \<noteq> []" "hd ?J = hd l" by blast
        with Cons.prems show ?thesis by auto
      qed
    qed
    from IH hdJ have sJ: "successively R (newline # ?J)"
      by (auto simp: successively_Cons)
    have sx: "successively R x" and bx: "x = [] \<or> R (last x) newline"
      using Cons.prems by auto
    from sx sJ bx have "successively R (x @ newline # ?J)"
      by (simp add: successively_append_iff)
    moreover from False have "join nl (x # ls) = x @ newline # ?J"
      by (simp add: join_Cons nl_def)
    ultimately show ?thesis by simp
  qed
qed

lemma successively_no_newline:
  "\<forall>c \<in> set l. c \<noteq> newline \<Longrightarrow> successively before_newline_ok l"
proof (induction l)
  case Nil
  then show ?case by simp
next
  case (Cons a l)
  then have "successively before_newline_ok l" by simp
  moreover have "l = [] \<or> before_newline_ok a (hd l)"
  proof (cases "l = []")
    case True
    then show ?thesis ..
  next
    case False
    then have "hd l \<in> set l" by simp
    with Cons.prems have "hd l \<noteq> newline" by simp
    then show ?thesis by (simp add: before_newline_ok_def)
  qed
  ultimately show ?case by (simp add: successively_Cons)
qed

lemma successively_infix:
  "successively R (a @ l @ b) \<Longrightarrow> successively R l"
  by (simp add: successively_append_iff)

subsection \<open>The result of \<open>normalize_text\<close> is normalized\<close>

lemma cn_normalized:
  assumes "normalized y"
  shows "normalized (collapse_newlines y)"
proof -
  from assms have q1: "\<forall>c \<in> set y. is_linebreak c \<longrightarrow> c = newline"
    and q2: "successively before_newline_ok y"
    and q4: "successively not_both_blank y"
    and q3: "y = [] \<or> \<not> is_space (hd y) \<and> \<not> is_space (last y)"
    by (simp_all add: normalized_def)
  have "\<forall>c \<in> set (collapse_newlines y). is_linebreak c \<longrightarrow> c = newline"
    using q1 cn_set [of y] by blast
  moreover have "successively before_newline_ok (collapse_newlines y)"
    using q2 by (rule cn_successively)
  moreover have "successively not_both_blank (collapse_newlines y)"
    using q4 by (rule cn_successively)
  moreover have "collapse_newlines y = []
      \<or> \<not> is_space (hd (collapse_newlines y)) \<and> \<not> is_space (last (collapse_newlines y))"
  proof (cases "y = []")
    case True
    then show ?thesis by (simp add: cn_Nil)
  next
    case False
    with q3 show ?thesis by (simp add: cn_hd cn_last)
  qed
  ultimately show ?thesis by (simp add: normalized_def)
qed

lemma normalized_fixed:
  assumes "normalized y"
  shows "normalize_text y = collapse_newlines y"
proof -
  let ?y = "collapse_newlines y"
  from cn_normalized [OF assms] have q1: "\<forall>c \<in> set ?y. is_linebreak c \<longrightarrow> c = newline"
    and q2: "successively before_newline_ok ?y"
    and q4: "successively not_both_blank ?y"
    and q3: "?y = [] \<or> \<not> is_space (hd ?y) \<and> \<not> is_space (last ?y)"
    by (simp_all add: normalized_def)
  have a: "collapse_blanks ?y = ?y" using q4 by (rule cb_fixed)
  have b: "join nl (map rstrip (splitlines ?y)) = ?y"
    using q1 q2 q3 by (intro lines_fixed) auto
  have c: "strip ?y = ?y" using q3 by (rule strip_fixed)
  show ?thesis
    by (simp only: normalize_text_def a b c)
qed

lemma normalize_text_normalized: "normalized (normalize_text t)"
proof -
  define x where "x = collapse_blanks (collapse_newlines t)"
  define ls where "ls = map rstrip (splitlines x)"
  define z where "z = join nl ls"
  have y: "normalize_text t = strip z"
    by (simp add: normalize_text_def x_def ls_def z_def)
  have sx: "successively not_both_blank x"
    unfolding x_def by (rule cb_successively)
  have lines: "(\<forall>c \<in> set l. \<not> is_linebreak c) \<and> (l = [] \<or> \<not> is_space (last l))
                 \<and> successively not_both_blank l \<and> successively before_newline_ok l"
    if "l \<in> set ls" for l
  proof -
    from that obtain l0 where l0: "l0 \<in> set (splitlines x)" and l: "l = rstrip l0"
      by (auto simp: ls_def)
    from splitlines_lines [OF l0] obtain a b where
      i0: "\<forall>c \<in> set l0. \<not> is_linebreak c" and x: "x = a @ l0 @ b"
      by blast
    obtain e where e: "l0 = l @ e" using rstrip_prefix [of l0] l by blast
    from i0 e have i: "\<forall>c \<in> set l. \<not> is_linebreak c" by (metis Un_iff set_append)
    have ii: "l = [] \<or> \<not> is_space (last l)" unfolding l by (rule rstrip_last)
    from sx x have "successively not_both_blank l0" by (metis successively_infix)
    with e have iii: "successively not_both_blank l" by (simp add: successively_append_iff)
    from i is_linebreak_newline have "\<forall>c \<in> set l. c \<noteq> newline" by auto
    then have iv: "successively before_newline_ok l" by (rule successively_no_newline)
    from i ii iii iv show ?thesis by blast
  qed
  have z1: "\<forall>c \<in> set z. is_linebreak c \<longrightarrow> c = newline"
  proof (intro ballI impI)
    fix c assume c: "c \<in> set z" and lb: "is_linebreak c"
    from c join_set [of ls] have "c = newline \<or> (\<exists>l \<in> set ls. c \<in> set l)"
      unfolding z_def by auto
    with lines lb show "c = newline" by blast
  qed
  have z2: "successively before_newline_ok z"
    unfolding z_def
  proof (rule join_successively)
    show "before_newline_ok newline newline" by (simp add: before_newline_ok_def)
    show "\<forall>l \<in> set ls. successively before_newline_ok l \<and>
            (l \<noteq> [] \<longrightarrow> before_newline_ok (last l) newline \<and> before_newline_ok newline (hd l))"
      using lines by (auto simp: before_newline_ok_def)
  qed
  have z4: "successively not_both_blank z"
    unfolding z_def
  proof (rule join_successively)
    show "not_both_blank newline newline" by (simp add: not_both_blank_def not_blank_newline)
    show "\<forall>l \<in> set ls. successively not_both_blank l \<and>
            (l \<noteq> [] \<longrightarrow> not_both_blank (last l) newline \<and> not_both_blank newline (hd l))"
      using lines by (auto simp: not_both_blank_def not_blank_newline)
  qed
  obtain a b where zs: "z = a @ strip z @ b" using strip_infix by blast
  have "\<forall>c \<in> set (strip z). is_linebreak c \<longrightarrow> c = newline"
  proof (intro ballI impI)
    fix c assume "c \<in> set (strip z)" and lb: "is_linebreak c"
    then have "c \<in> set (a @ strip z @ b)" by simp
    with zs have "c \<in> set z" by simp
    with z1 lb show "c = newline" by blast
  qed
  moreover have "successively before_newline_ok (strip z)"
    using z2 zs by (metis successively_infix)
  moreover have "successively not_both_blank (strip z)"
    using z4 zs by (metis successively_infix)
  moreover note strip_ends [of z]
  ultimately show ?thesis
    unfolding y by (simp add: normalized_def)
qed

lemma normalize_text_twice:
  "normalize_text (normalize_text t) = collapse_newlines (normalize_text t)"
  using normalize_text_normalized by (rule normalized_fixed)

text \<open>
  C10 fails as stated: trailing whitespace is stripped from the lines after the newlines
  are collapsed, so a line of blanks between newlines leaves three newlines in a row,
  which the next application collapses.
\<close>

theorem normalize_text_not_idempotent_counterexample:
  "normalize_text spaced_lines = [CHR ''a'', newline, newline, newline, CHR ''b''] \<and>
   normalize_text (normalize_text spaced_lines) = [CHR ''a'', newline, newline, CHR ''b''] \<and>
   normalize_text (normalize_text spaced_lines) \<noteq> normalize_text spaced_lines"
  by code_simp

text \<open>
  C10 as the code has it. A second application of \<open>normalize_text\<close> changes nothing
  when the normalized text has no three newlines in a row; and in every case a third
  application changes nothing any more.
\<close>

theorem normalize_text_idempotent_amended:
  "normalize_text (normalize_text (normalize_text t)) = normalize_text (normalize_text t) \<and>
   (\<not> contains [newline, newline, newline] (normalize_text t) \<longrightarrow>
      normalize_text (normalize_text t) = normalize_text t)"
proof
  have "normalized (collapse_newlines (normalize_text t))"
    using normalize_text_normalized by (rule cn_normalized)
  then have "normalize_text (collapse_newlines (normalize_text t))
               = collapse_newlines (collapse_newlines (normalize_text t))"
    by (rule normalized_fixed)
  then show "normalize_text (normalize_text (normalize_text t))
               = normalize_text (normalize_text t)"
    by (simp add: normalize_text_twice cn_idem)
next
  show "\<not> contains [newline, newline, newline] (normalize_text t) \<longrightarrow>
          normalize_text (normalize_text t) = normalize_text t"
    by (simp add: normalize_text_twice cn_fixed)
qed

text \<open>The theorem at a text with runs of blanks and newlines, and at two lines that end
  in a no-break space with a next line between them.\<close>

theorem normalize_text_idempotent_amended_witness:
  "normalize_text ragged_text = [CHR ''a'', CHR '' '', CHR ''b'', newline, newline, CHR ''c''] \<and>
   \<not> contains [newline, newline, newline] (normalize_text ragged_text) \<and>
   normalize_text (normalize_text ragged_text) = normalize_text ragged_text \<and>
   normalize_text nbsp_lines = [CHR ''a'', newline, CHR ''b''] \<and>
   normalize_text (normalize_text nbsp_lines) = normalize_text nbsp_lines"
proof -
  have n: "normalize_text nbsp_lines = [CHR ''a'', newline, CHR ''b'']"
    by code_simp
  have m: "\<not> contains [newline, newline, newline] [CHR ''a'', newline, CHR ''b'']"
    by code_simp
  from normalize_text_idempotent_amended [of nbsp_lines] n m
  have i: "normalize_text (normalize_text nbsp_lines) = normalize_text nbsp_lines"
    by simp
  have v: "normalize_text ragged_text
             = [CHR ''a'', CHR '' '', CHR ''b'', newline, newline, CHR ''c'']"
    by code_simp
  have c: "\<not> contains [newline, newline, newline]
               [CHR ''a'', CHR '' '', CHR ''b'', newline, newline, CHR ''c'']"
    by code_simp
  from normalize_text_idempotent_amended [of ragged_text] v c
  have j: "normalize_text (normalize_text ragged_text) = normalize_text ragged_text"
    by simp
  from v c j n i show ?thesis
    by simp
qed

end
